theory Spec2Isabelle
  imports Complex_Main "HOL-Library.Sublist" "HOL-Library.Log_Nat"
begin

section \<open>Go strings and the library functions the bot calls\<close>

text \<open>
  A Go string is a sequence of bytes; it is modelled as \<open>string\<close> (a \<open>char list\<close>, one
  \<open>char\<close> per byte). \<open>len\<close> is \<open>length\<close>. A byte is read as an integer with
  \<open>byte\<close>; runes (\<open>int32\<close> in Go) are integers.
\<close>

type_synonym rune = int

definition byte :: "char \<Rightarrow> int" where
  "byte c = of_char c"

text \<open>\<open>strings.HasPrefix(s, prefix)\<close>: \<open>len(s) >= len(prefix) && s[:len(prefix)] == prefix\<close>.\<close>

definition HasPrefix :: "string \<Rightarrow> string \<Rightarrow> bool" where
  "HasPrefix s p = (length p \<le> length s \<and> take (length p) s = p)"

text \<open>\<open>strings.Contains(s, substr)\<close>: \<open>substr\<close> occurs at some offset of \<open>s\<close>.\<close>

fun Contains :: "string \<Rightarrow> string \<Rightarrow> bool" where
  "Contains [] substr = (substr = [])"
| "Contains (c # cs) substr = (HasPrefix (c # cs) substr \<or> Contains cs substr)"

subsection \<open>UTF-8 decoding and encoding (package unicode/utf8)\<close>

definition RuneError :: rune where
  "RuneError = 65533"

text \<open>
  The table \<open>first\<close> of package utf8, read as the length of the sequence a leading byte
  announces: 1 for ASCII, 0 for a byte that cannot start a sequence, otherwise 2, 3 or 4.
  \<open>accept_lo\<close> and \<open>accept_hi\<close> are the accept range of the second byte.
\<close>

definition first_size :: "int \<Rightarrow> nat" where
  "first_size b =
     (if b < 128 then 1
      else if b < 194 then 0
      else if b < 224 then 2
      else if b < 240 then 3
      else if b < 245 then 4
      else 0)"

definition accept_lo :: "int \<Rightarrow> int" where
  "accept_lo b = (if b = 224 then 160 else if b = 240 then 144 else 128)"

definition accept_hi :: "int \<Rightarrow> int" where
  "accept_hi b = (if b = 237 then 159 else if b = 244 then 143 else 191)"

text \<open>
  \<open>utf8.DecodeRuneInString\<close>: the first rune of \<open>s\<close> and its width in bytes; an invalid
  or truncated sequence gives \<open>(RuneError, 1)\<close>, the empty string \<open>(RuneError, 0)\<close>.
\<close>

definition DecodeRuneInString :: "string \<Rightarrow> rune \<times> nat" where
  "DecodeRuneInString s =
     (let n = length s in
      if n < 1 then (RuneError, 0)
      else
        let s0 = byte (s ! 0); sz = first_size s0 in
        if s0 < 128 then (s0, 1)
        else if sz = 0 then (RuneError, 1)
        else if n < sz then (RuneError, 1)
        else
          let s1 = byte (s ! 1) in
          if s1 < accept_lo s0 \<or> accept_hi s0 < s1 then (RuneError, 1)
          else if sz \<le> 2 then ((s0 mod 32) * 64 + s1 mod 64, 2)
          else
            let s2 = byte (s ! 2) in
            if s2 < 128 \<or> 191 < s2 then (RuneError, 1)
            else if sz \<le> 3 then ((s0 mod 16) * 4096 + (s1 mod 64) * 64 + s2 mod 64, 3)
            else
              let s3 = byte (s ! 3) in
              if s3 < 128 \<or> 191 < s3 then (RuneError, 1)
              else ((s0 mod 8) * 262144 + (s1 mod 64) * 4096 + (s2 mod 64) * 64
                    + s3 mod 64, 4))"

text \<open>
  \<open>utf8.AppendRune\<close> (what \<open>Builder.WriteRune\<close> writes): the UTF-8 encoding of a rune;
  surrogates, negative values and values beyond \<open>MaxRune\<close> are written as
  \<open>RuneError\<close>.
\<close>

definition AppendRune :: "rune \<Rightarrow> string" where
  "AppendRune r =
     (if 0 \<le> r \<and> r \<le> 127 then [char_of r]
      else if 0 \<le> r \<and> r \<le> 2047 then [char_of (192 + r div 64), char_of (128 + r mod 64)]
      else if r < 0 \<or> r > 1114111 \<or> (55296 \<le> r \<and> r \<le> 57343) then
        [char_of (239::int), char_of (191::int), char_of (189::int)]
      else if r \<le> 65535 then
        [char_of (224 + r div 4096), char_of (128 + (r div 64) mod 64),
         char_of (128 + r mod 64)]
      else
        [char_of (240 + r div 262144), char_of (128 + (r div 4096) mod 64),
         char_of (128 + (r div 64) mod 64), char_of (128 + r mod 64)])"

subsection \<open>strings.Map and strings.ToLower\<close>

text \<open>
  \<open>strings.Map\<close> has two loops over the runes of \<open>s\<close>. The first one (\<open>Map_head\<close>) keeps
  the bytes of \<open>s\<close> as they are while the mapping leaves every rune unchanged; at the first
  rune that changes (an invalid byte counts as a change) it writes the mapped rune and the
  second loop (\<open>Map_tail\<close>) writes the mapping of every remaining rune. A negative
  mapped rune is dropped.
\<close>

definition WriteRune :: "rune \<Rightarrow> string" where
  "WriteRune r = (if 0 \<le> r then AppendRune r else [])"

function Map_tail :: "(rune \<Rightarrow> rune) \<Rightarrow> string \<Rightarrow> string" where
  "Map_tail f s =
     (if s = [] then []
      else WriteRune (f (fst (DecodeRuneInString s)))
           @ Map_tail f (drop (snd (DecodeRuneInString s)) s))"
  by pat_completeness auto
termination
  by (relation "measure (\<lambda>(f, s). length s)")
     (auto simp: DecodeRuneInString_def Let_def neq_Nil_conv)

function Map_head :: "(rune \<Rightarrow> rune) \<Rightarrow> string \<Rightarrow> string" where
  "Map_head f s =
     (if s = [] then []
      else if f (fst (DecodeRuneInString s)) = fst (DecodeRuneInString s)
              \<and> (fst (DecodeRuneInString s) \<noteq> RuneError \<or> snd (DecodeRuneInString s) \<noteq> 1)
      then take (snd (DecodeRuneInString s)) s
           @ Map_head f (drop (snd (DecodeRuneInString s)) s)
      else WriteRune (f (fst (DecodeRuneInString s)))
           @ Map_tail f (drop (snd (DecodeRuneInString s)) s))"
  by pat_completeness auto
termination
  by (relation "measure (\<lambda>(f, s). length s)")
     (auto simp: DecodeRuneInString_def Let_def neq_Nil_conv)

declare Map_tail.simps [simp del] Map_head.simps [simp del]

text \<open>
  \<open>unicode.ToLower\<close>: ASCII is handled by the function itself; every other rune goes
  through the case tables of package unicode, which are a parameter here (\<open>lowerTable\<close>).
\<close>

definition unicode_ToLower :: "(rune \<Rightarrow> rune) \<Rightarrow> rune \<Rightarrow> rune" where
  "unicode_ToLower lowerTable r =
     (if r \<le> 127 then (if 65 \<le> r \<and> r \<le> 90 then r + 32 else r) else lowerTable r)"

text \<open>The ASCII path of \<open>strings.ToLower\<close>: \<open>c += 'a' - 'A'\<close> for an upper-case byte.\<close>

definition lowerByte :: "char \<Rightarrow> char" where
  "lowerByte c = (if 65 \<le> byte c \<and> byte c \<le> 90 then char_of (byte c + 32) else c)"

text \<open>
  \<open>strings.ToLower\<close>: a string of ASCII bytes only is lowered byte by byte; any other
  string goes through \<open>strings.Map(unicode.ToLower, s)\<close>.
\<close>

definition ToLower :: "(rune \<Rightarrow> rune) \<Rightarrow> string \<Rightarrow> string" where
  "ToLower lowerTable s =
     (if \<forall>c \<in> set s. byte c < 128 then map lowerByte s
      else Map_head (unicode_ToLower lowerTable) s)"

section \<open>The URL classifier\<close>

definition isValidURL :: "string \<Rightarrow> bool" where
  "isValidURL url =
     (HasPrefix url ''http'' \<and>
      (Contains url ''youtube.com'' \<or>
       Contains url ''youtu.be'' \<or>
       Contains url ''instagram.com'' \<or>
       Contains url ''facebook.com'' \<or>
       Contains url ''fb.com'' \<or>
       Contains url ''tiktok.com''))"

definition detectPlatform :: "(rune \<Rightarrow> rune) \<Rightarrow> string \<Rightarrow> string" where
  "detectPlatform lowerTable url =
     (let lowerURL = ToLower lowerTable url in
      if Contains lowerURL ''youtube.com'' \<or> Contains lowerURL ''youtu.be'' then ''YouTube''
      else if Contains lowerURL ''instagram.com'' \<or> Contains lowerURL ''instagr.am''
        then ''Instagram''
      else if Contains lowerURL ''facebook.com'' \<or> Contains lowerURL ''fb.com''
              \<or> Contains lowerURL ''fb.watch'' then ''Facebook''
      else if Contains lowerURL ''tiktok.com'' \<or> Contains lowerURL ''vm.tiktok.com''
        then ''TikTok''
      else ''Unknown'')"

section \<open>Title truncation\<close>

datatype panic = SliceBoundsOutOfRange | NilPointerDereference

text \<open>The slice expression \<open>s[:k]\<close>, which panics unless \<open>0 <= k <= len(s)\<close>.\<close>

definition slice_to :: "string \<Rightarrow> int \<Rightarrow> panic + string" where
  "slice_to s k =
     (if 0 \<le> k \<and> k \<le> int (length s) then Inr (take (nat k) s)
      else Inl SliceBoundsOutOfRange)"

definition truncateString :: "string \<Rightarrow> int \<Rightarrow> panic + string" where
  "truncateString s maxLen =
     (if int (length s) \<le> maxLen then Inr s
      else case slice_to s (maxLen - 3) of
             Inl e \<Rightarrow> Inl e
           | Inr t \<Rightarrow> Inr (t @ ''...''))"

section \<open>Sessions and the session registry\<close>

text \<open>
  The verb \<open>%d\<close> of \<open>fmt.Sprintf\<close>: the decimal digits of an integer, with a leading
  minus sign for a negative one.
\<close>

function decimal :: "int \<Rightarrow> string" where
  "decimal n =
     (if n < 10 then [''0123456789'' ! nat n]
      else decimal (n div 10) @ [''0123456789'' ! nat (n mod 10)])"
  by pat_completeness auto
termination
  by (relation "measure nat") auto

declare decimal.simps [simp del]

definition formatInt :: "int \<Rightarrow> string" where
  "formatInt i = (if i < 0 then CHR ''-'' # decimal (- i) else decimal i)"

definition getCacheKey :: "int \<Rightarrow> int \<Rightarrow> string" where
  "getCacheKey chatID messageID = formatInt chatID @ '':'' @ formatInt messageID"

record Download =
  URL :: string
  Platform :: string
  Title :: string
  Thumbnail :: string
  Progress :: int
  IsAudio :: bool

type_synonym urlCache = "string \<rightharpoonup> Download"

text \<open>
  The goroutine that \<open>main\<close> starts for a valid URL, as far as the registry goes. Its
  inputs from the outside are the result of \<open>getVideoInfo\<close> (title and thumbnail) and
  the message identifier \<open>sentMsgID\<close> of the message \<open>bot.Send\<close> returns; the error of
  \<open>bot.Send\<close> is dropped by the code, and the \<open>Message\<close> it returns with an error is
  the zero value, whose identifier is 0. \<open>chatID\<close> is the chat of the message the goroutine
  was started for.
\<close>

definition storeSession ::
  "urlCache \<Rightarrow> int \<Rightarrow> Download \<Rightarrow> string \<Rightarrow> string \<Rightarrow> int \<Rightarrow> urlCache" where
  "storeSession cache chatID info0 title thumbnail sentMsgID =
     (let info = info0\<lparr>Title := title, Thumbnail := thumbnail\<rparr>;
          cacheKey = getCacheKey chatID 0;
          cache1 = cache(cacheKey \<mapsto> info);
          newCacheKey = getCacheKey chatID sentMsgID;
          cache2 = cache1(newCacheKey \<mapsto> info)
      in cache2(cacheKey := None))"

text \<open>
  The text-message branch of the update loop: a valid URL creates the session and runs the
  goroutine above; any other text is answered with the invalid-URL message and leaves the
  registry as it is (\<open>None\<close>).
\<close>

definition handleText ::
  "(rune \<Rightarrow> rune) \<Rightarrow> urlCache \<Rightarrow> int \<Rightarrow> string \<Rightarrow> string \<Rightarrow> string \<Rightarrow> int
     \<Rightarrow> urlCache option" where
  "handleText lowerTable cache chatID url title thumbnail sentMsgID =
     (if isValidURL url then
        let platform = detectPlatform lowerTable url;
            info = \<lparr>URL = url, Platform = platform, Title = [], Thumbnail = [],
                    Progress = 0, IsAudio = False\<rparr>
        in Some (storeSession cache chatID info title thumbnail sentMsgID)
      else None)"

section \<open>The format policy and the arguments of the external tool\<close>

text \<open>The two nested switches of \<open>handleVideoDownload\<close> that set \<open>formatCode\<close>.\<close>

definition formatCode :: "string \<Rightarrow> string \<Rightarrow> string" where
  "formatCode platform quality =
     (if platform = ''YouTube'' then
        (if quality = ''360p'' then ''18/bestvideo[height<=360]+bestaudio/best[height<=360]''
         else if quality = ''480p'' then
           ''135+bestaudio/bestvideo[height<=480]+bestaudio/best[height<=480]''
         else if quality = ''720p'' then
           ''22/136+bestaudio/bestvideo[height<=720]+bestaudio/best[height<=720]''
         else ''best'')
      else if platform = ''Instagram'' \<or> platform = ''Facebook'' \<or> platform = ''TikTok'' then
        (if quality = ''medium'' then ''worst[ext=mp4]/worst'' else ''best[ext=mp4]/best'')
      else ''best'')"

text \<open>The switch on \<open>info.Platform\<close> that appends to \<open>ytdlpArgs\<close>, in both handlers.\<close>

definition platformArgs :: "string \<Rightarrow> string list" where
  "platformArgs platform =
     (if platform = ''Instagram'' \<or> platform = ''Facebook'' then [''--no-check-certificate'']
      else [])"

definition videoArgs :: "Download \<Rightarrow> string \<Rightarrow> int \<Rightarrow> string list" where
  "videoArgs info quality timestamp =
     [''-f'', formatCode (Platform info) quality,
      ''--remux-video'', ''mp4'',
      ''-o'', ''video_'' @ formatInt timestamp @ ''.%(ext)s'',
      ''--newline'',
      ''--progress-template'', ''%(progress.downloaded_bytes)s/%(progress.total_bytes)s'',
      ''--no-playlist'']
     @ platformArgs (Platform info)
     @ [URL info]"

definition audioArgs :: "Download \<Rightarrow> int \<Rightarrow> string list" where
  "audioArgs info timestamp =
     [''-x'',
      ''--audio-format'', ''mp3'',
      ''--audio-quality'', ''0'',
      ''-o'', ''audio_'' @ formatInt timestamp @ ''.%(ext)s'',
      ''--newline'',
      ''--progress-template'', ''%(progress.downloaded_bytes)s/%(progress.total_bytes)s'',
      ''--no-playlist'']
     @ platformArgs (Platform info)
     @ [URL info]"

section \<open>The job runner and delivery\<close>

definition MaxFileSize :: int where
  "MaxFileSize = 150 * 1024 * 1024"

text \<open>
  What a handler sends to the chat. The texts themselves are presentation; a message is
  kept as its kind and the values the text is formatted from.
\<close>

datatype media = Video | Audio

datatype outbound =
    FailedToStart media
  | FailedToDownload media
  | NoFileFound media
  | CompleteUploading media string
  | ExceedsLimit media int
  | Upload media string string string string int
  | FailedToSend media

text \<open>
  What the outside world answers to one run of a handler: whether \<open>cmd.Start\<close> and
  \<open>cmd.Wait\<close> return an error, the files \<open>filepath.Glob\<close> finds, the size \<open>os.Stat\<close>
  reports (\<open>None\<close> when it returns an error, and then \<open>fileInfo\<close> is nil), and whether the
  upload returns an error.
\<close>

record job_env =
  startErr :: bool
  waitErr :: bool
  globFiles :: "string list"
  statSize :: "int option"
  uploadErr :: bool

text \<open>
  The result of a run: the arguments the tool was started with, the messages sent in
  order, the files removed by the deferred \<open>os.Remove\<close>, and the panic that ended the run,
  if any.
\<close>

record job_result =
  command :: "string list"
  sent :: "outbound list"
  removed :: "string list"
  panicked :: "panic option"

text \<open>
  The part shared by the two handlers after the tool was set up. \<open>label\<close> is the quality
  token of a video and the fixed \<open>MP3\<close> of an audio caption. \<open>fileInfo.Size()\<close> on a nil
  \<open>fileInfo\<close> is a nil dereference.
\<close>

definition runJob :: "media \<Rightarrow> string list \<Rightarrow> Download \<Rightarrow> string \<Rightarrow> job_env \<Rightarrow> job_result" where
  "runJob m args info label env =
     (if startErr env then
        \<lparr>command = args, sent = [FailedToStart m], removed = [], panicked = None\<rparr>
      else if waitErr env then
        \<lparr>command = args, sent = [FailedToDownload m], removed = [], panicked = None\<rparr>
      else
        case globFiles env of
          [] \<Rightarrow> \<lparr>command = args, sent = [NoFileFound m], removed = [], panicked = None\<rparr>
        | file # _ \<Rightarrow>
            (case statSize env of
               None \<Rightarrow>
                 \<lparr>command = args, sent = [], removed = [file],
                  panicked = Some NilPointerDereference\<rparr>
             | Some fileSize \<Rightarrow>
                 (case truncateString (Title info) 150 of
                    Inl e \<Rightarrow>
                      \<lparr>command = args, sent = [], removed = [file], panicked = Some e\<rparr>
                  | Inr title150 \<Rightarrow>
                      if fileSize > MaxFileSize then
                        \<lparr>command = args,
                         sent = [CompleteUploading m title150, ExceedsLimit m fileSize],
                         removed = [file], panicked = None\<rparr>
                      else
                        (case truncateString (Title info) 100 of
                           Inl e \<Rightarrow>
                             \<lparr>command = args, sent = [CompleteUploading m title150],
                              removed = [file], panicked = Some e\<rparr>
                         | Inr title100 \<Rightarrow>
                             \<lparr>command = args,
                              sent = [CompleteUploading m title150,
                                      Upload m file (Platform info) title100 label fileSize]
                                     @ (if uploadErr env then [FailedToSend m] else []),
                              removed = [file], panicked = None\<rparr>))))"

definition handleVideoDownload :: "Download \<Rightarrow> string \<Rightarrow> int \<Rightarrow> job_env \<Rightarrow> job_result" where
  "handleVideoDownload info quality timestamp env =
     runJob Video (videoArgs info quality timestamp) info quality env"

definition handleAudioDownload :: "Download \<Rightarrow> int \<Rightarrow> job_env \<Rightarrow> job_result" where
  "handleAudioDownload info timestamp env =
     runJob Audio (audioArgs info timestamp) info ''MP3'' env"

section \<open>Progress lines\<close>

subsection \<open>strings.Split and strconv.ParseInt\<close>

text \<open>
  \<open>strings.Split(s, sep)\<close> for a separator of one byte: the fields between the
  occurrences of \<open>sep\<close>, one more than there are occurrences.
\<close>

fun Split :: "string \<Rightarrow> char \<Rightarrow> string list" where
  "Split [] sep = [[]]"
| "Split (c # cs) sep =
     (if c = sep then [] # Split cs sep
      else case Split cs sep of
             [] \<Rightarrow> [[c]]
           | p # ps \<Rightarrow> (c # p) # ps)"

datatype NumError = ErrSyntax | ErrRange

text \<open>
  The digit loop of \<open>strconv.ParseUint(s, 10, 64)\<close>: a byte that is not a decimal digit
  is a syntax error; the cutoff \<open>maxUint64/10 + 1\<close> and the check of \<open>n*10 + d\<close> against
  \<open>maxUint64\<close> give the range error.
\<close>

fun parseDigits :: "int \<Rightarrow> string \<Rightarrow> NumError + int" where
  "parseDigits n [] = Inr n"
| "parseDigits n (c # cs) =
     (if 48 \<le> byte c \<and> byte c \<le> 57 then
        (if 1844674407370955162 \<le> n then Inl ErrRange
         else if 18446744073709551615 < n * 10 + (byte c - 48) then Inl ErrRange
         else parseDigits (n * 10 + (byte c - 48)) cs)
      else Inl ErrSyntax)"

definition ParseUint :: "string \<Rightarrow> NumError + int" where
  "ParseUint s = (if s = [] then Inl ErrSyntax else parseDigits 0 s)"

text \<open>
  \<open>strconv.ParseInt(s, 10, 64)\<close>: an optional sign, then \<open>ParseUint\<close>, then the check
  against the cutoff \<open>1 << 63\<close>.
\<close>

definition ParseInt :: "string \<Rightarrow> NumError + int" where
  "ParseInt s =
     (if s = [] then Inl ErrSyntax
      else
        let neg = (hd s = CHR ''-'');
            rest = (if hd s = CHR ''+'' \<or> hd s = CHR ''-'' then tl s else s)
        in case ParseUint rest of
             Inl e \<Rightarrow> Inl e
           | Inr un \<Rightarrow>
               if \<not> neg \<and> 9223372036854775808 \<le> un then Inl ErrRange
               else if neg \<and> 9223372036854775808 < un then Inl ErrRange
               else Inr (if neg then - un else un))"

subsection \<open>float64 arithmetic\<close>

text \<open>
  A finite \<open>float64\<close> is the rational number it stands for. Every operation returns the
  exact result rounded to the nearest number with a significand of 53 bits, ties to the
  even significand (\<open>f64_round\<close>). The exponent is not bounded in this model: the
  magnitudes that occur below lie between \<open>2\<^sup>-\<^sup>6\<^sup>4\<close> and \<open>2\<^sup>7\<^sup>0\<close>, far inside the range of
  normal numbers, where neither overflow nor gradual underflow happens.
\<close>

text \<open>
  For \<open>a > 0\<close>, \<open>ilog2 a\<close> is the exponent \<open>e\<close> with \<open>2\<^sup>e \<le> a < 2\<^sup>e\<^sup>+\<^sup>1\<close>; it is found from the
  bit lengths of numerator and denominator.
\<close>

definition ilog2 :: "rat \<Rightarrow> int" where
  "ilog2 a =
     (let (p, q) = quotient_of a; k = bitlen p - bitlen q in
      if 2 powi k \<le> a then k else k - 1)"

definition round_half_even :: "rat \<Rightarrow> int" where
  "round_half_even q =
     (let f = \<lfloor>q\<rfloor>; r = q - of_int f in
      if r < 1 / 2 then f
      else if 1 / 2 < r then f + 1
      else if even f then f else f + 1)"

definition f64_round :: "rat \<Rightarrow> rat" where
  "f64_round x =
     (if x = 0 then 0
      else
        let a = \<bar>x\<bar>;
            ulp = 2 powi (ilog2 a - 52);
            m = of_int (round_half_even (a / ulp)) * ulp
        in if x < 0 then - m else m)"

text \<open>The conversion \<open>float64(n)\<close> of an integer and the operators \<open>+\<close>, \<open>*\<close>, \<open>/\<close>.\<close>

definition float64 :: "int \<Rightarrow> rat" where
  "float64 n = f64_round (of_int n)"

definition f64_add :: "rat \<Rightarrow> rat \<Rightarrow> rat" where
  "f64_add x y = f64_round (x + y)"

definition f64_mul :: "rat \<Rightarrow> rat \<Rightarrow> rat" where
  "f64_mul x y = f64_round (x * y)"

definition f64_div :: "rat \<Rightarrow> rat \<Rightarrow> rat" where
  "f64_div x y = f64_round (x / y)"

text \<open>
  The conversion \<open>int(x)\<close> of a \<open>float64\<close> discards the fraction. For a value outside the
  range of \<open>int\<close> the language leaves the result to the implementation; the value taken
  here is the one of amd64, the least \<open>int64\<close>.
\<close>

definition truncate :: "rat \<Rightarrow> int" where
  "truncate x = (if 0 \<le> x then \<lfloor>x\<rfloor> else \<lceil>x\<rceil>)"

definition int_of_float64 :: "rat \<Rightarrow> int" where
  "int_of_float64 x =
     (if - 9223372036854775808 \<le> truncate x \<and> truncate x < 9223372036854775808
      then truncate x else - 9223372036854775808)"

subsection \<open>parseProgress\<close>

definition parseProgress :: "string \<Rightarrow> int" where
  "parseProgress line =
     (let parts = Split line CHR ''/'' in
      if length parts \<noteq> 2 then 0
      else
        case ParseInt (parts ! 0) of
          Inl err1 \<Rightarrow> 0
        | Inr downloaded \<Rightarrow>
            (case ParseInt (parts ! 1) of
               Inl err2 \<Rightarrow> 0
             | Inr total' \<Rightarrow>
                 if total' = 0 then 0
                 else int_of_float64
                        (f64_mul (f64_div (float64 downloaded) (float64 total')) 100)))"

section \<open>The progress tracker\<close>

definition UpdateIntervalSec :: rat where
  "UpdateIntervalSec = 3"

text \<open>
  Time is the reading of the monotonic clock in nanoseconds; a \<open>Duration\<close> is a difference
  of two readings. \<open>Duration.Seconds\<close> divides with truncation towards zero
  (\<open>d / Second\<close>, \<open>d % Second\<close>) and adds the two parts as \<open>float64\<close>.
\<close>

definition quot :: "int \<Rightarrow> int \<Rightarrow> int" where
  "quot a b = sgn a * sgn b * (\<bar>a\<bar> div \<bar>b\<bar>)"

definition rem :: "int \<Rightarrow> int \<Rightarrow> int" where
  "rem a b = a - b * quot a b"

definition Seconds :: "int \<Rightarrow> rat" where
  "Seconds d =
     (let sec = quot d 1000000000; nsec = rem d 1000000000
      in f64_add (float64 sec) (f64_div (float64 nsec) 1000000000))"

text \<open>
  The loop of \<open>trackProgress\<close> over the lines the scanner returns. With each line come
  two clock readings: \<open>now\<close>, the one \<open>time.Since\<close> takes when the line is examined, and
  \<open>after\<close>, the one \<open>time.Now\<close> returns once the edit has been sent (read only when an
  edit is sent). The result lists the edits sent: the reading \<open>now\<close> and the percentage
  shown.
\<close>

type_synonym scanned = "string \<times> int \<times> int"

fun trackLoop :: "int \<Rightarrow> scanned list \<Rightarrow> (int \<times> int) list" where
  "trackLoop lastUpdateTime [] = []"
| "trackLoop lastUpdateTime ((line, now, after) # rest) =
     (let progress = parseProgress line in
      if 0 < progress \<and> UpdateIntervalSec \<le> Seconds (now - lastUpdateTime)
      then (now, progress) # trackLoop after rest
      else trackLoop lastUpdateTime rest)"

text \<open>\<open>start\<close> is the reading \<open>time.Now()\<close> takes before the first line is scanned.\<close>

definition trackProgress :: "int \<Rightarrow> scanned list \<Rightarrow> (int \<times> int) list" where
  "trackProgress start lines = trackLoop start lines"

text \<open>
  The clock is monotonic: the readings taken along the lines do not decrease, beginning
  with the reading \<open>start\<close>.
\<close>

fun monotonic :: "int \<Rightarrow> scanned list \<Rightarrow> bool" where
  "monotonic t [] = True"
| "monotonic t ((line, now, after) # rest) = (t \<le> now \<and> now \<le> after \<and> monotonic after rest)"

section \<open>The specification's reading of platform detection\<close>

text \<open>
  The specification describes platform detection as a scan of the lowered string against
  one set of domain fragments per platform, in a fixed order of precedence, the first
  platform with a matching fragment winning and no match giving \<open>Unknown\<close>.
\<close>

definition platformFragments :: "(string \<times> string list) list" where
  "platformFragments =
     [(''YouTube'', [''youtube.com'', ''youtu.be'']),
      (''Instagram'', [''instagram.com'', ''instagr.am'']),
      (''Facebook'', [''facebook.com'', ''fb.com'', ''fb.watch'']),
      (''TikTok'', [''tiktok.com'', ''vm.tiktok.com''])]"

fun firstMatch :: "(string \<times> string list) list \<Rightarrow> string \<Rightarrow> string" where
  "firstMatch [] lowered = ''Unknown''"
| "firstMatch ((platform, fragments) # rest) lowered =
     (if \<exists>fragment \<in> set fragments. Contains lowered fragment then platform
      else firstMatch rest lowered)"

section \<open>The specification's reading of the length of a title\<close>

text \<open>
  The specification measures a title in characters. The characters of a Go string are
  its runes, counted by \<open>utf8.RuneCountInString\<close>: every UTF-8 sequence counts once, and
  so does every byte that is not part of one. The code measures with \<open>len\<close>, in bytes.
\<close>

function RuneCountInString :: "string \<Rightarrow> nat" where
  "RuneCountInString s =
     (if s = [] then 0
      else Suc (RuneCountInString (drop (snd (DecodeRuneInString s)) s)))"
  by pat_completeness auto
termination
  by (relation "measure length")
     (auto simp: DecodeRuneInString_def Let_def neq_Nil_conv)

declare RuneCountInString.simps [simp del]

section \<open>Properties of the string functions\<close>

lemma HasPrefix_iff: "HasPrefix s p \<longleftrightarrow> (\<exists>b. s = p @ b)"
proof
  assume "HasPrefix s p"
  then have "s = p @ drop (length p) s"
    by (metis HasPrefix_def append_take_drop_id)
  then show "\<exists>b. s = p @ b" ..
next
  assume "\<exists>b. s = p @ b"
  then show "HasPrefix s p" by (auto simp: HasPrefix_def)
qed

lemma Contains_iff: "Contains s sub \<longleftrightarrow> (\<exists>a b. s = a @ sub @ b)"
proof (induction s)
  case Nil
  then show ?case by auto
next
  case (Cons c cs)
  show ?case
  proof
    assume "Contains (c # cs) sub"
    then consider "HasPrefix (c # cs) sub" | "Contains cs sub" by auto
    then show "\<exists>a b. c # cs = a @ sub @ b"
    proof cases
      case 1
      then obtain b where "c # cs = sub @ b" by (auto simp: HasPrefix_iff)
      then have "c # cs = [] @ sub @ b" by simp
      then show ?thesis by blast
    next
      case 2
      then obtain a b where "cs = a @ sub @ b" using Cons.IH by auto
      then have "c # cs = (c # a) @ sub @ b" by simp
      then show ?thesis by blast
    qed
  next
    assume "\<exists>a b. c # cs = a @ sub @ b"
    then obtain a b where ab: "c # cs = a @ sub @ b" by auto
    show "Contains (c # cs) sub"
    proof (cases a)
      case Nil
      with ab have "HasPrefix (c # cs) sub" by (auto simp: HasPrefix_iff)
      then show ?thesis by simp
    next
      case (Cons x a')
      with ab have "cs = a' @ sub @ b" by simp
      then have "Contains cs sub" using Cons.IH by auto
      then show ?thesis by simp
    qed
  qed
qed

subsection \<open>Lowering keeps lower-case ASCII fragments\<close>

lemma char_of_byte: "char_of (byte c) = c"
  by (simp add: byte_def)

lemma byte_nonneg: "0 \<le> byte c"
proof -
  have "byte c = int (of_char c)" by (simp add: byte_def of_nat_of_char)
  then show ?thesis by simp
qed

lemma DecodeRuneInString_ascii:
  "byte c < 128 \<Longrightarrow> DecodeRuneInString (c # cs) = (byte c, 1)"
  by (simp add: DecodeRuneInString_def)

lemma WriteRune_ascii: "byte c < 128 \<Longrightarrow> WriteRune (byte c) = [c]"
  by (simp add: WriteRune_def AppendRune_def char_of_byte byte_nonneg)

lemma DecodeRuneInString_width:
  "s \<noteq> [] \<Longrightarrow> 0 < snd (DecodeRuneInString s) \<and> snd (DecodeRuneInString s) \<le> length s"
  by (auto simp: DecodeRuneInString_def Let_def first_size_def neq_Nil_conv split: if_splits)

lemma DecodeRuneInString_width_le4: "snd (DecodeRuneInString s) \<le> 4"
  by (auto simp: DecodeRuneInString_def Let_def)

lemma DecodeRuneInString_continuation:
  assumes "0 < i" and "i < snd (DecodeRuneInString s)"
  shows "128 \<le> byte (s ! i)"
proof -
  have "i < 4" using assms(2) DecodeRuneInString_width_le4 [of s] by linarith
  then consider "i = Suc 0" | "i = 2" | "i = 3" using assms(1) by linarith
  then show ?thesis
  proof cases
    case 1
    with assms(2) show ?thesis
      by (auto simp: DecodeRuneInString_def Let_def accept_lo_def split: if_splits)
  next
    case 2
    with assms(2) show ?thesis
      by (auto simp: DecodeRuneInString_def Let_def split: if_splits)
  next
    case 3
    with assms(2) show ?thesis
      by (auto simp: DecodeRuneInString_def Let_def split: if_splits)
  qed
qed

text \<open>A rune that starts before an ASCII byte ends before it.\<close>

lemma DecodeRuneInString_stops:
  assumes "a \<noteq> []" and "byte c < 128"
  shows "snd (DecodeRuneInString (a @ c # r)) \<le> length a"
proof (rule ccontr)
  assume "\<not> ?thesis"
  then have "length a < snd (DecodeRuneInString (a @ c # r))" by simp
  moreover have "0 < length a" using assms(1) by simp
  ultimately have "128 \<le> byte ((a @ c # r) ! length a)"
    by (rule DecodeRuneInString_continuation [rotated])
  then show False using assms(2) by simp
qed

lemma Map_tail_stable:
  assumes "\<forall>c \<in> set frag. byte c < 128 \<and> f (byte c) = byte c"
  shows "Map_tail f (frag @ b) = frag @ Map_tail f b"
  using assms
proof (induction frag)
  case Nil
  then show ?case by simp
next
  case (Cons c frag)
  then have c: "byte c < 128" "f (byte c) = byte c" by auto
  have "Map_tail f ((c # frag) @ b) = WriteRune (f (byte c)) @ Map_tail f (frag @ b)"
    by (subst Map_tail.simps) (simp add: DecodeRuneInString_ascii c)
  then show ?case using Cons c by (simp add: WriteRune_ascii)
qed

lemma Map_head_stable:
  assumes "\<forall>c \<in> set frag. byte c < 128 \<and> f (byte c) = byte c"
  shows "Map_head f (frag @ b) = frag @ Map_head f b"
  using assms
proof (induction frag)
  case Nil
  then show ?case by simp
next
  case (Cons c frag)
  then have c: "byte c < 128" "f (byte c) = byte c" by auto
  have "Map_head f ((c # frag) @ b) = [c] @ Map_head f (frag @ b)"
    by (subst Map_head.simps) (use c in \<open>simp add: DecodeRuneInString_ascii RuneError_def\<close>)
  then show ?case using Cons by simp
qed

lemma Map_tail_keeps:
  assumes "\<forall>c \<in> set frag. byte c < 128 \<and> f (byte c) = byte c"
  shows "\<exists>a' b'. Map_tail f (a @ frag @ b) = a' @ frag @ b'"
proof (induction "length a" arbitrary: a rule: less_induct)
  case less
  show ?case
  proof (cases "a = [] \<or> frag = []")
    case True
    then show ?thesis
    proof
      assume "a = []"
      then have "Map_tail f (a @ frag @ b) = [] @ frag @ Map_tail f b"
        using Map_tail_stable [OF assms] by simp
      then show ?thesis by blast
    next
      assume "frag = []"
      then have "Map_tail f (a @ frag @ b) = Map_tail f (a @ frag @ b) @ frag @ []" by simp
      then show ?thesis by blast
    qed
  next
    case False
    then obtain c r where frag: "frag = c # r" and a: "a \<noteq> []" by (cases frag) auto
    define w where "w = snd (DecodeRuneInString (a @ frag @ b))"
    have c: "byte c < 128" using assms frag by simp
    have w_le: "w \<le> length a"
      unfolding w_def frag using DecodeRuneInString_stops [OF a c] by simp
    have w_pos: "0 < w"
      unfolding w_def using DecodeRuneInString_width [of "a @ frag @ b"] a by simp
    have "length (drop w a) < length a" using w_pos a by (cases a) auto
    then obtain a' b' where IH: "Map_tail f (drop w a @ frag @ b) = a' @ frag @ b'"
      using less by blast
    have "Map_tail f (a @ frag @ b)
          = WriteRune (f (fst (DecodeRuneInString (a @ frag @ b))))
            @ Map_tail f (drop w (a @ frag @ b))"
      by (subst Map_tail.simps) (use a in \<open>simp add: w_def\<close>)
    also have "drop w (a @ frag @ b) = drop w a @ frag @ b" using w_le by simp
    finally have "Map_tail f (a @ frag @ b)
          = (WriteRune (f (fst (DecodeRuneInString (a @ frag @ b)))) @ a') @ frag @ b'"
      using IH by simp
    then show ?thesis by blast
  qed
qed

lemma Map_head_keeps:
  assumes "\<forall>c \<in> set frag. byte c < 128 \<and> f (byte c) = byte c"
  shows "\<exists>a' b'. Map_head f (a @ frag @ b) = a' @ frag @ b'"
proof (induction "length a" arbitrary: a rule: less_induct)
  case less
  show ?case
  proof (cases "a = [] \<or> frag = []")
    case True
    then show ?thesis
    proof
      assume "a = []"
      then have "Map_head f (a @ frag @ b) = [] @ frag @ Map_head f b"
        using Map_head_stable [OF assms] by simp
      then show ?thesis by blast
    next
      assume "frag = []"
      then have "Map_head f (a @ frag @ b) = Map_head f (a @ frag @ b) @ frag @ []" by simp
      then show ?thesis by blast
    qed
  next
    case False
    then obtain c r where frag: "frag = c # r" and a: "a \<noteq> []" by (cases frag) auto
    define s where "s = a @ frag @ b"
    define w where "w = snd (DecodeRuneInString s)"
    have c: "byte c < 128" using assms frag by simp
    have w_le: "w \<le> length a"
      unfolding w_def s_def frag using DecodeRuneInString_stops [OF a c] by simp
    have w_pos: "0 < w"
      unfolding w_def s_def using DecodeRuneInString_width [of "a @ frag @ b"] a by simp
    have shorter: "length (drop w a) < length a" using w_pos a by (cases a) auto
    have drop: "drop w s = drop w a @ frag @ b" using w_le by (simp add: s_def)
    have s_ne: "s \<noteq> []" using a by (simp add: s_def)
    consider
      (copy) "Map_head f s = take w s @ Map_head f (drop w s)"
      | (change) "Map_head f s = WriteRune (f (fst (DecodeRuneInString s))) @ Map_tail f (drop w s)"
      using Map_head.simps [of f s] s_ne by (auto simp: w_def split: if_splits)
    then show ?thesis
    proof cases
      case copy
      obtain a' b' where "Map_head f (drop w a @ frag @ b) = a' @ frag @ b'"
        using less shorter by blast
      then have "Map_head f s = (take w s @ a') @ frag @ b'"
        using copy drop by simp
      then show ?thesis unfolding s_def by blast
    next
      case change
      obtain a' b' where "Map_tail f (drop w a @ frag @ b) = a' @ frag @ b'"
        using Map_tail_keeps [OF assms] by blast
      then have "Map_head f s = (WriteRune (f (fst (DecodeRuneInString s))) @ a') @ frag @ b'"
        using change drop by simp
      then show ?thesis unfolding s_def by blast
    qed
  qed
qed

lemma ToLower_keeps:
  assumes frag: "\<forall>c \<in> set frag. byte c < 128 \<and> \<not> (65 \<le> byte c \<and> byte c \<le> 90)"
    and "Contains s frag"
  shows "Contains (ToLower lowerTable s) frag"
proof -
  obtain a b where s: "s = a @ frag @ b" using assms(2) by (auto simp: Contains_iff)
  show ?thesis
  proof (cases "\<forall>c \<in> set s. byte c < 128")
    case True
    have "map lowerByte frag = frag"
      using frag by (intro map_idI) (auto simp: lowerByte_def)
    moreover have "ToLower lowerTable s = map lowerByte s"
      unfolding ToLower_def by (rule if_P [OF True])
    ultimately have "ToLower lowerTable s = map lowerByte a @ frag @ map lowerByte b"
      by (simp add: s)
    then show ?thesis unfolding Contains_iff by blast
  next
    case False
    have "\<forall>c \<in> set frag. byte c < 128 \<and> unicode_ToLower lowerTable (byte c) = byte c"
      using frag by (auto simp: unicode_ToLower_def)
    then obtain a' b' where "Map_head (unicode_ToLower lowerTable) (a @ frag @ b) = a' @ frag @ b'"
      using Map_head_keeps by blast
    moreover have "ToLower lowerTable s = Map_head (unicode_ToLower lowerTable) s"
      unfolding ToLower_def by (rule if_not_P [OF False])
    ultimately have "ToLower lowerTable s = a' @ frag @ b'"
      by (simp only: s)
    then show ?thesis unfolding Contains_iff by blast
  qed
qed

section \<open>Truncation of titles\<close>

lemma truncateString_panics:
  "maxLen < 3 \<Longrightarrow> maxLen < int (length s) \<Longrightarrow>
     truncateString s maxLen = Inl SliceBoundsOutOfRange"
  by (simp add: truncateString_def slice_to_def)

lemma RuneCountInString_ascii:
  "\<forall>c \<in> set s. byte c < 128 \<Longrightarrow> RuneCountInString s = length s"
proof (induction s)
  case Nil
  then show ?case by (subst RuneCountInString.simps) simp
next
  case (Cons c s)
  then have "DecodeRuneInString (c # s) = (byte c, 1)"
    by (simp add: DecodeRuneInString_ascii)
  then have "RuneCountInString (c # s) = Suc (RuneCountInString s)"
    by (subst RuneCountInString.simps) simp
  then show ?case using Cons by simp
qed

lemma truncateString_within_bytes:
  "int (length s) \<le> maxLen \<Longrightarrow> truncateString s maxLen = Inr s"
  by (simp add: truncateString_def)

text \<open>
  Claim C7 is stated for every string and every cap, in characters. It fails in two ways.
  For a cap below 3, a longer string makes the slice bound \<open>maxLen - 3\<close> negative and the
  function panics (and no string of fewer than 3 characters ends in \<open>...\<close>). For a title
  with characters of more than one byte, the code compares and cuts in bytes: a title of
  60 characters of two bytes each is within a cap of 100 characters and is still cut, to
  100 bytes that hold 52 characters, the cut falling inside a character.
\<close>

theorem truncateString_breaks_claim:
  "truncateString ''abcd'' 2 = Inl SliceBoundsOutOfRange \<and>
   RuneCountInString (concat (replicate 60 [CHR 0xC3, CHR 0xA9])) = 60 \<and>
   truncateString (concat (replicate 60 [CHR 0xC3, CHR 0xA9])) 100
     = Inr (concat (replicate 48 [CHR 0xC3, CHR 0xA9]) @ [CHR 0xC3] @ ''...'') \<and>
   RuneCountInString (concat (replicate 48 [CHR 0xC3, CHR 0xA9]) @ [CHR 0xC3] @ ''...'') = 52 \<and>
   DecodeRuneInString ([CHR 0xC3] @ ''...'') = (RuneError, 1)"
  by code_simp

text \<open>
  Claim C7, amended: for every cap \<open>maxLen\<close> of at least 3 and every string \<open>s\<close> whose
  characters are single bytes (ASCII), a string of at most \<open>maxLen\<close> characters is returned
  unchanged, and a longer one becomes a string of exactly \<open>maxLen\<close> characters that is a
  prefix of \<open>s\<close> followed by \<open>...\<close>. Nothing is said of a string with a character of
  more than one byte.
\<close>

theorem truncateString_single_byte_characters:
  assumes "3 \<le> maxLen" and "\<forall>c \<in> set s. byte c < 128"
  shows "(int (RuneCountInString s) \<le> maxLen \<longrightarrow> truncateString s maxLen = Inr s) \<and>
         (maxLen < int (RuneCountInString s) \<longrightarrow>
            (\<exists>t. truncateString s maxLen = Inr (t @ ''...'') \<and>
                 int (RuneCountInString (t @ ''...'')) = maxLen \<and> prefix t s))"
proof -
  have count: "RuneCountInString s = length s"
    using assms(2) by (rule RuneCountInString_ascii)
  show ?thesis
  proof (intro conjI impI)
    assume "int (RuneCountInString s) \<le> maxLen"
    then show "truncateString s maxLen = Inr s"
      by (simp add: count truncateString_def)
  next
    assume long: "maxLen < int (RuneCountInString s)"
    define t where "t = take (nat (maxLen - 3)) s"
    have res: "truncateString s maxLen = Inr (t @ ''...'')"
      using long assms(1) by (simp add: count truncateString_def slice_to_def t_def)
    have "\<forall>c \<in> set (t @ ''...''). byte c < 128"
      using assms(2) by (auto simp: t_def byte_def dest: in_set_takeD)
    then have "RuneCountInString (t @ ''...'') = length (t @ ''...'')"
      by (rule RuneCountInString_ascii)
    moreover have "int (length (t @ ''...'')) = maxLen"
      using long assms(1) by (simp add: t_def count)
    ultimately have "int (RuneCountInString (t @ ''...'')) = maxLen" by simp
    moreover have "prefix t s" by (simp add: t_def take_is_prefix)
    ultimately show "\<exists>t. truncateString s maxLen = Inr (t @ ''...'') \<and>
                 int (RuneCountInString (t @ ''...'')) = maxLen \<and> prefix t s"
      using res by blast
  qed
qed

theorem truncateString_single_byte_characters_witness:
  "(3::int) \<le> 200 \<and>
   int (RuneCountInString (replicate 250 CHR ''a'')) = 250 \<and>
   (\<exists>t. truncateString (replicate 250 CHR ''a'') 200 = Inr (t @ ''...'')
        \<and> int (RuneCountInString (t @ ''...'')) = 200 \<and> prefix t (replicate 250 CHR ''a'')) \<and>
   int (RuneCountInString (replicate 50 CHR ''a'')) = 50 \<and>
   truncateString (replicate 50 CHR ''a'') 200 = Inr (replicate 50 CHR ''a'')"
proof -
  have a: "\<forall>c \<in> set (replicate n CHR ''a''). byte c < 128" for n
    by (simp add: byte_def)
  have c: "RuneCountInString (replicate n CHR ''a'') = n" for n
    using RuneCountInString_ascii [OF a] by simp
  have three: "(3::int) \<le> 200" by simp
  show ?thesis
    using truncateString_single_byte_characters [OF three a, of 250]
      truncateString_single_byte_characters [OF three a, of 50]
    by (simp add: c)
qed

section \<open>The URL classifier\<close>

lemma fragments_stable:
  "\<forall>c \<in> set ''youtube.com''. byte c < 128 \<and> \<not> (65 \<le> byte c \<and> byte c \<le> 90)"
  "\<forall>c \<in> set ''youtu.be''. byte c < 128 \<and> \<not> (65 \<le> byte c \<and> byte c \<le> 90)"
  "\<forall>c \<in> set ''instagram.com''. byte c < 128 \<and> \<not> (65 \<le> byte c \<and> byte c \<le> 90)"
  "\<forall>c \<in> set ''facebook.com''. byte c < 128 \<and> \<not> (65 \<le> byte c \<and> byte c \<le> 90)"
  "\<forall>c \<in> set ''fb.com''. byte c < 128 \<and> \<not> (65 \<le> byte c \<and> byte c \<le> 90)"
  "\<forall>c \<in> set ''tiktok.com''. byte c < 128 \<and> \<not> (65 \<le> byte c \<and> byte c \<le> 90)"
  by (simp_all add: byte_def)

lemma isValidURL_iff:
  "isValidURL url \<longleftrightarrow>
     (\<exists>r. url = ''http'' @ r) \<and>
     (\<exists>fragment \<in> {''youtube.com'', ''youtu.be'', ''instagram.com'', ''facebook.com'',
                      ''fb.com'', ''tiktok.com''}. \<exists>a b. url = a @ fragment @ b)"
  by (simp add: isValidURL_def HasPrefix_iff Contains_iff)

lemma isValidURL_needs_http: "\<not> HasPrefix url ''http'' \<Longrightarrow> \<not> isValidURL url"
  by (simp add: isValidURL_def)

text \<open>
  Claim C1 asks for a classifier that ignores case. The code compares the scheme and the
  domain fragments byte for byte, so a URL with an upper-case letter in the scheme or in the
  only supported domain it names is reported invalid, while \<open>detectPlatform\<close> lowers the same
  URL before it matches. The theorem evaluates the code on two such URLs and on their
  lower-case forms.
\<close>

theorem isValidURL_is_case_sensitive:
  "\<not> isValidURL ''Https://youtu.be/abc'' \<and> isValidURL ''https://youtu.be/abc'' \<and>
   \<not> isValidURL ''https://www.YouTube.com/watch?v=abc'' \<and>
   isValidURL ''https://www.youtube.com/watch?v=abc''"
  by code_simp

text \<open>
  Claim C5: \<open>detectPlatform\<close> is the first match of the lowered string against the
  fragment sets in the order YouTube, Instagram, Facebook, TikTok, and \<open>Unknown\<close> when
  nothing matches; a string whose lowered form contains both \<open>youtube.com\<close> and
  \<open>tiktok.com\<close> is YouTube; and when a URL contains both, every string that differs from
  it in the case of its letters only (every string with the same lowered form) is YouTube.
\<close>

theorem detectPlatform_first_match:
  "detectPlatform lowerTable url = firstMatch platformFragments (ToLower lowerTable url) \<and>
   (Contains (ToLower lowerTable url) ''youtube.com'' \<and>
    Contains (ToLower lowerTable url) ''tiktok.com'' \<longrightarrow>
      detectPlatform lowerTable url = ''YouTube'') \<and>
   (Contains url ''youtube.com'' \<and> Contains url ''tiktok.com'' \<longrightarrow>
      (\<forall>url'. ToLower lowerTable url' = ToLower lowerTable url \<longrightarrow>
          detectPlatform lowerTable url' = ''YouTube''))"
proof (intro conjI)
  show "detectPlatform lowerTable url = firstMatch platformFragments (ToLower lowerTable url)"
    by (simp add: detectPlatform_def platformFragments_def Let_def)
next
  show "Contains (ToLower lowerTable url) ''youtube.com'' \<and>
    Contains (ToLower lowerTable url) ''tiktok.com'' \<longrightarrow>
      detectPlatform lowerTable url = ''YouTube''"
    by (simp add: detectPlatform_def Let_def)
next
  show "Contains url ''youtube.com'' \<and> Contains url ''tiktok.com'' \<longrightarrow>
      (\<forall>url'. ToLower lowerTable url' = ToLower lowerTable url \<longrightarrow>
          detectPlatform lowerTable url' = ''YouTube'')"
  proof (intro impI allI)
    fix url'
    assume both: "Contains url ''youtube.com'' \<and> Contains url ''tiktok.com''"
      and same: "ToLower lowerTable url' = ToLower lowerTable url"
    have "Contains (ToLower lowerTable url) ''youtube.com''"
      using ToLower_keeps [OF fragments_stable(1)] both by blast
    then show "detectPlatform lowerTable url' = ''YouTube''"
      using same by (simp add: detectPlatform_def Let_def)
  qed
qed

theorem detectPlatform_first_match_witness:
  "Contains ''https://youtube.com/?next=tiktok.com'' ''youtube.com'' \<and>
   Contains ''https://youtube.com/?next=tiktok.com'' ''tiktok.com'' \<and>
   ToLower (\<lambda>r. r) ''HTTPS://YouTube.COM/?next=TikTok.com''
     = ToLower (\<lambda>r. r) ''https://youtube.com/?next=tiktok.com'' \<and>
   detectPlatform (\<lambda>r. r) ''HTTPS://YouTube.COM/?next=TikTok.com'' = ''YouTube''"
proof -
  have c1: "Contains ''https://youtube.com/?next=tiktok.com'' ''youtube.com''"
    by code_simp
  have c2: "Contains ''https://youtube.com/?next=tiktok.com'' ''tiktok.com''"
    by code_simp
  have same: "ToLower (\<lambda>r. r) ''HTTPS://YouTube.COM/?next=TikTok.com''
     = ToLower (\<lambda>r. r) ''https://youtube.com/?next=tiktok.com''"
    by code_simp
  show ?thesis
    using detectPlatform_first_match [of "\<lambda>r. r" "''https://youtube.com/?next=tiktok.com''"]
      c1 c2 same
    by blast
qed

lemma detectPlatform_range:
  "detectPlatform lowerTable url
     \<in> {''YouTube'', ''Instagram'', ''Facebook'', ''TikTok'', ''Unknown''}"
  by (simp add: detectPlatform_def Let_def)

lemma valid_url_not_unknown:
  "isValidURL url \<Longrightarrow> detectPlatform lowerTable url \<noteq> ''Unknown''"
proof -
  assume "isValidURL url"
  then consider "Contains url ''youtube.com''" | "Contains url ''youtu.be''"
    | "Contains url ''instagram.com''" | "Contains url ''facebook.com''"
    | "Contains url ''fb.com''" | "Contains url ''tiktok.com''"
    by (auto simp: isValidURL_def)
  then show ?thesis
  proof cases
    case 1
    from ToLower_keeps [OF fragments_stable(1) this] show ?thesis
      by (simp add: detectPlatform_def Let_def)
  next
    case 2
    from ToLower_keeps [OF fragments_stable(2) this] show ?thesis
      by (simp add: detectPlatform_def Let_def)
  next
    case 3
    from ToLower_keeps [OF fragments_stable(3) this] show ?thesis
      by (simp add: detectPlatform_def Let_def)
  next
    case 4
    from ToLower_keeps [OF fragments_stable(4) this] show ?thesis
      by (simp add: detectPlatform_def Let_def)
  next
    case 5
    from ToLower_keeps [OF fragments_stable(5) this] show ?thesis
      by (simp add: detectPlatform_def Let_def)
  next
    case 6
    from ToLower_keeps [OF fragments_stable(6) this] show ?thesis
      by (simp add: detectPlatform_def Let_def)
  qed
qed

text \<open>
  Claim C9: for a string that \<open>isValidURL\<close> accepts, \<open>detectPlatform\<close> returns one of the
  four platforms YouTube, Instagram, Facebook and TikTok, never \<open>Unknown\<close>: each of the six
  fragments of the validity check is lower-case ASCII, survives the lowering, and is in
  the fragment set of a platform.
\<close>

theorem valid_url_has_platform:
  "isValidURL url \<Longrightarrow>
     detectPlatform lowerTable url \<in> {''YouTube'', ''Instagram'', ''Facebook'', ''TikTok''}"
  using detectPlatform_range [of lowerTable url] valid_url_not_unknown [of url lowerTable]
  by auto

theorem valid_url_has_platform_witness:
  "isValidURL ''https://fb.com/watch/1'' \<and>
   detectPlatform (\<lambda>r. r) ''https://fb.com/watch/1''
     \<in> {''YouTube'', ''Instagram'', ''Facebook'', ''TikTok''} \<and>
   detectPlatform (\<lambda>r. r) ''https://fb.com/watch/1'' = ''Facebook''"
proof -
  have v: "isValidURL ''https://fb.com/watch/1''" by code_simp
  have f: "detectPlatform (\<lambda>r. r) ''https://fb.com/watch/1'' = ''Facebook''" by code_simp
  show ?thesis
    using v f valid_url_has_platform [OF v, of "\<lambda>r. r"] by blast
qed

section \<open>The session registry\<close>

lemma decimal_not_Nil: "decimal n \<noteq> []"
  by (subst decimal.simps) simp

lemma decimal_zero_iff: "0 \<le> n \<Longrightarrow> decimal n = ''0'' \<longleftrightarrow> n = 0"
proof -
  assume nonneg: "0 \<le> n"
  show ?thesis
  proof (cases "n < 10")
    case True
    have "distinct ''0123456789''" by simp
    moreover have "nat n < length ''0123456789''" using True by simp
    ultimately have "''0123456789'' ! nat n = ''0123456789'' ! 0 \<longleftrightarrow> nat n = 0"
      by (subst nth_eq_iff_index_eq) simp_all
    moreover have "decimal n = [''0123456789'' ! nat n]"
      using True by (subst decimal.simps) simp
    ultimately show ?thesis using nonneg by simp
  next
    case False
    then have "decimal n = decimal (n div 10) @ [''0123456789'' ! nat (n mod 10)]"
      by (subst decimal.simps) simp
    then have "length (decimal n) \<ge> 2"
      using decimal_not_Nil [of "n div 10"] by (cases "decimal (n div 10)") auto
    then show ?thesis using False by auto
  qed
qed

lemma formatInt_zero_iff: "formatInt m = formatInt 0 \<longleftrightarrow> m = 0"
proof -
  have z: "formatInt 0 = ''0''" by (simp add: formatInt_def decimal.simps)
  show ?thesis
  proof (cases "m < 0")
    case True
    then show ?thesis by (simp add: z) (simp add: formatInt_def)
  next
    case False
    then show ?thesis using decimal_zero_iff [of m] by (simp add: z) (simp add: formatInt_def)
  qed
qed

lemma provisional_key_distinct:
  "getCacheKey chatID messageID = getCacheKey chatID 0 \<longleftrightarrow> messageID = 0"
  by (simp add: getCacheKey_def formatInt_zero_iff)

text \<open>
  Claim C4 is stated for every session created from a valid URL. It fails when the message
  with the download options cannot be sent: the code drops the error of \<open>bot.Send\<close>, the
  identifier it reads is 0, the permanent key is the provisional key, and the entry just
  stored is deleted, so that the lookup under the permanent key fails.
\<close>

theorem session_lost_when_send_fails:
  "storeSession Map.empty 42
     \<lparr>URL = ''https://youtu.be/abc'', Platform = ''YouTube'', Title = [], Thumbnail = [],
      Progress = 0, IsAudio = False\<rparr>
     ''Unknown Title'' [] 0 (getCacheKey 42 0) = None"
  by (simp add: storeSession_def Let_def)

text \<open>
  Claim C4, amended: for every session created from a valid URL whose message with the
  download options was sent (the identifier \<open>bot.Send\<close> returns is not 0), once the
  goroutine has run the lookup under the provisional key (conversation and 0) fails, the
  lookup under the permanent key (conversation and the identifier of the sent message)
  returns the session with its title and thumbnail, and no other key of the registry has
  changed. The steps of the goroutine are taken without interleaving.
\<close>

theorem session_rekeyed:
  assumes "isValidURL url" and "sentMsgID \<noteq> 0"
  shows "\<exists>cache' info.
           handleText lowerTable cache chatID url title thumbnail sentMsgID = Some cache' \<and>
           cache' (getCacheKey chatID 0) = None \<and>
           cache' (getCacheKey chatID sentMsgID) = Some info \<and>
           info = \<lparr>URL = url, Platform = detectPlatform lowerTable url, Title = title,
                   Thumbnail = thumbnail, Progress = 0, IsAudio = False\<rparr> \<and>
           (\<forall>key. key \<noteq> getCacheKey chatID 0 \<and> key \<noteq> getCacheKey chatID sentMsgID
                   \<longrightarrow> cache' key = cache key)"
  using assms
  by (simp add: handleText_def storeSession_def Let_def provisional_key_distinct)

theorem session_rekeyed_witness:
  "isValidURL ''https://youtu.be/abc'' \<and> (4711::int) \<noteq> 0 \<and>
   (\<exists>cache' info.
      handleText (\<lambda>r. r) Map.empty 42 ''https://youtu.be/abc'' ''Sample Title'' ''http://thumb'' 4711
        = Some cache' \<and>
      cache' (getCacheKey 42 0) = None \<and>
      cache' (getCacheKey 42 4711) = Some info \<and>
      info = \<lparr>URL = ''https://youtu.be/abc'',
              Platform = detectPlatform (\<lambda>r. r) ''https://youtu.be/abc'',
              Title = ''Sample Title'', Thumbnail = ''http://thumb'', Progress = 0,
              IsAudio = False\<rparr> \<and>
      (\<forall>key. key \<noteq> getCacheKey 42 0 \<and> key \<noteq> getCacheKey 42 4711
              \<longrightarrow> cache' key = Map.empty key))"
proof -
  have v: "isValidURL ''https://youtu.be/abc''" by code_simp
  have n: "(4711::int) \<noteq> 0" by simp
  show ?thesis
    using v n session_rekeyed [OF v n, of "\<lambda>r. r" Map.empty 42 "''Sample Title''" "''http://thumb''"]
    by blast
qed

section \<open>Delivery\<close>

lemma truncateString_returns:
  "3 \<le> maxLen \<Longrightarrow> \<exists>t. truncateString s maxLen = Inr t"
  by (auto simp: truncateString_def slice_to_def)

lemma runJob_delivery:
  assumes "\<not> startErr env" and "\<not> waitErr env" and "globFiles env = file # others"
    and "statSize env = Some fileSize"
  shows "(MaxFileSize < fileSize \<longrightarrow>
            (\<exists>t. sent (runJob m args info label env)
                   = [CompleteUploading m t, ExceedsLimit m fileSize])) \<and>
         (fileSize \<le> MaxFileSize \<longrightarrow>
            (\<exists>t t'. sent (runJob m args info label env)
                   = [CompleteUploading m t, Upload m file (Platform info) t' label fileSize]
                     @ (if uploadErr env then [FailedToSend m] else [])))"
proof -
  obtain t150 where t150: "truncateString (Title info) 150 = Inr t150"
    using truncateString_returns [of 150 "Title info"] by auto
  obtain t100 where t100: "truncateString (Title info) 100 = Inr t100"
    using truncateString_returns [of 100 "Title info"] by auto
  show ?thesis
    using assms by (simp add: runJob_def t150 t100)
qed

text \<open>
  Claim C6: the ceiling is 150 MiB; when the tool has produced a file and its size is known,
  a size above the ceiling makes the handler send the completion edit and the
  size-exceeded message and nothing else (no upload), and a size at or under the ceiling
  makes it attempt the upload of that file. This holds for the video and the audio handler.
\<close>

theorem size_ceiling_gates_upload:
  assumes "\<not> startErr env" and "\<not> waitErr env" and "globFiles env = file # others"
    and "statSize env = Some fileSize"
  shows "MaxFileSize = 157286400 \<and>
         (MaxFileSize < fileSize \<longrightarrow>
            (\<exists>t. sent (handleVideoDownload info quality timestamp env)
                   = [CompleteUploading Video t, ExceedsLimit Video fileSize]) \<and>
            (\<exists>t. sent (handleAudioDownload info timestamp env)
                   = [CompleteUploading Audio t, ExceedsLimit Audio fileSize])) \<and>
         (fileSize \<le> MaxFileSize \<longrightarrow>
            (\<exists>t'. Upload Video file (Platform info) t' quality fileSize
                      \<in> set (sent (handleVideoDownload info quality timestamp env))) \<and>
            (\<exists>t'. Upload Audio file (Platform info) t' ''MP3'' fileSize
                      \<in> set (sent (handleAudioDownload info timestamp env))))"
proof (intro conjI impI)
  show "MaxFileSize = 157286400" by (simp add: MaxFileSize_def)
next
  assume "MaxFileSize < fileSize"
  then show "\<exists>t. sent (handleVideoDownload info quality timestamp env)
                   = [CompleteUploading Video t, ExceedsLimit Video fileSize]"
    using runJob_delivery [OF assms] unfolding handleVideoDownload_def by blast
next
  assume "MaxFileSize < fileSize"
  then show "\<exists>t. sent (handleAudioDownload info timestamp env)
                   = [CompleteUploading Audio t, ExceedsLimit Audio fileSize]"
    using runJob_delivery [OF assms] unfolding handleAudioDownload_def by blast
next
  assume le: "fileSize \<le> MaxFileSize"
  obtain t t' where "sent (handleVideoDownload info quality timestamp env)
       = [CompleteUploading Video t, Upload Video file (Platform info) t' quality fileSize]
         @ (if uploadErr env then [FailedToSend Video] else [])"
    using runJob_delivery [OF assms, of Video _ info quality] le
    unfolding handleVideoDownload_def by blast
  then have "Upload Video file (Platform info) t' quality fileSize
               \<in> set (sent (handleVideoDownload info quality timestamp env))" by simp
  then show "\<exists>t'. Upload Video file (Platform info) t' quality fileSize
                      \<in> set (sent (handleVideoDownload info quality timestamp env))" by blast
next
  assume le: "fileSize \<le> MaxFileSize"
  obtain t t' where "sent (handleAudioDownload info timestamp env)
       = [CompleteUploading Audio t, Upload Audio file (Platform info) t' ''MP3'' fileSize]
         @ (if uploadErr env then [FailedToSend Audio] else [])"
    using runJob_delivery [OF assms, of Audio _ info "''MP3''"] le
    unfolding handleAudioDownload_def by blast
  then have "Upload Audio file (Platform info) t' ''MP3'' fileSize
               \<in> set (sent (handleAudioDownload info timestamp env))" by simp
  then show "\<exists>t'. Upload Audio file (Platform info) t' ''MP3'' fileSize
                      \<in> set (sent (handleAudioDownload info timestamp env))" by blast
qed


theorem size_ceiling_gates_upload_witness:
  "MaxFileSize < 209715200 \<and>
   (\<exists>t. sent (handleVideoDownload
              \<lparr>URL = ''https://youtu.be/abc'', Platform = ''YouTube'', Title = ''Sample Title'',
               Thumbnail = [], Progress = 0, IsAudio = False\<rparr> ''720p'' 1
              \<lparr>startErr = False, waitErr = False, globFiles = [''video_1.mp4''],
               statSize = Some 209715200, uploadErr = False\<rparr>)
         = [CompleteUploading Video t, ExceedsLimit Video 209715200]) \<and>
   10485760 \<le> MaxFileSize \<and>
   (\<exists>t'. Upload Audio ''audio_1.mp3'' ''YouTube'' t' ''MP3'' 10485760
          \<in> set (sent (handleAudioDownload
              \<lparr>URL = ''https://youtu.be/abc'', Platform = ''YouTube'', Title = ''Sample Title'',
               Thumbnail = [], Progress = 0, IsAudio = True\<rparr> 1
              \<lparr>startErr = False, waitErr = False, globFiles = [''audio_1.mp3''],
               statSize = Some 10485760, uploadErr = False\<rparr>)))"
proof -
  let ?big = "\<lparr>startErr = False, waitErr = False, globFiles = [''video_1.mp4''],
               statSize = Some (209715200::int), uploadErr = False\<rparr>"
  let ?small = "\<lparr>startErr = False, waitErr = False, globFiles = [''audio_1.mp3''],
               statSize = Some (10485760::int), uploadErr = False\<rparr>"
  let ?v = "\<lparr>URL = ''https://youtu.be/abc'', Platform = ''YouTube'', Title = ''Sample Title'',
               Thumbnail = [], Progress = 0, IsAudio = False\<rparr>"
  let ?a = "\<lparr>URL = ''https://youtu.be/abc'', Platform = ''YouTube'', Title = ''Sample Title'',
               Thumbnail = [], Progress = 0, IsAudio = True\<rparr>"
  have b: "\<not> startErr ?big" "\<not> waitErr ?big" "globFiles ?big = ''video_1.mp4'' # []"
    "statSize ?big = Some 209715200" by simp_all
  have s: "\<not> startErr ?small" "\<not> waitErr ?small" "globFiles ?small = ''audio_1.mp3'' # []"
    "statSize ?small = Some 10485760" by simp_all
  have lt: "MaxFileSize < 209715200" and le: "10485760 \<le> MaxFileSize"
    by (simp_all add: MaxFileSize_def)
  have p: "Platform ?a = ''YouTube''" by simp
  show ?thesis
    using size_ceiling_gates_upload [OF b, of ?v "''720p''" 1]
      size_ceiling_gates_upload [OF s, of ?a "''720p''" 1] lt le
    unfolding p by blast
qed

section \<open>The format policy\<close>

lemma command_runJob: "command (runJob m args info label env) = args"
  by (simp add: runJob_def split: list.splits option.splits sum.splits)

lemma formatCode_not_flag: "formatCode platform quality \<noteq> ''--no-check-certificate''"
  by (simp add: formatCode_def)

text \<open>
  Claim C8: the format specifier follows the policy table (YouTube: 360p, 480p and 720p
  select their height-bounded specifiers, any other token the best available;
  Instagram, Facebook and TikTok: medium selects the worst mp4, any other token the best
  mp4; \<open>Unknown\<close> and any other platform the best available); the specifier is the
  argument after \<open>-f\<close> and the URL is the last argument; and among the arguments before
  the URL the flag that skips certificate validation is present exactly for Instagram and
  Facebook, in the video and in the audio handler.
\<close>

theorem format_policy_table:
  "formatCode ''YouTube'' ''360p'' = ''18/bestvideo[height<=360]+bestaudio/best[height<=360]'' \<and>
   formatCode ''YouTube'' ''480p''
     = ''135+bestaudio/bestvideo[height<=480]+bestaudio/best[height<=480]'' \<and>
   formatCode ''YouTube'' ''720p''
     = ''22/136+bestaudio/bestvideo[height<=720]+bestaudio/best[height<=720]'' \<and>
   (quality \<notin> {''360p'', ''480p'', ''720p''} \<longrightarrow> formatCode ''YouTube'' quality = ''best'') \<and>
   (platform \<in> {''Instagram'', ''Facebook'', ''TikTok''} \<longrightarrow>
      formatCode platform ''medium'' = ''worst[ext=mp4]/worst'' \<and>
      (quality \<noteq> ''medium'' \<longrightarrow> formatCode platform quality = ''best[ext=mp4]/best'')) \<and>
   formatCode ''Unknown'' quality = ''best'' \<and>
   (platform \<notin> {''YouTube'', ''Instagram'', ''Facebook'', ''TikTok''} \<longrightarrow>
      formatCode platform quality = ''best'') \<and>
   take 2 (command (handleVideoDownload info quality timestamp env))
     = [''-f'', formatCode (Platform info) quality] \<and>
   last (command (handleVideoDownload info quality timestamp env)) = URL info \<and>
   last (command (handleAudioDownload info timestamp env)) = URL info \<and>
   (''--no-check-certificate''
      \<in> set (butlast (command (handleVideoDownload info quality timestamp env)))
    \<longleftrightarrow> Platform info \<in> {''Instagram'', ''Facebook''}) \<and>
   (''--no-check-certificate''
      \<in> set (butlast (command (handleAudioDownload info timestamp env)))
    \<longleftrightarrow> Platform info \<in> {''Instagram'', ''Facebook''})"
proof (intro conjI)
  show "''--no-check-certificate''
      \<in> set (butlast (command (handleVideoDownload info quality timestamp env)))
    \<longleftrightarrow> Platform info \<in> {''Instagram'', ''Facebook''}"
    using formatCode_not_flag [of "Platform info" quality]
    by (simp add: handleVideoDownload_def command_runJob videoArgs_def platformArgs_def
        butlast_append)
  show "''--no-check-certificate''
      \<in> set (butlast (command (handleAudioDownload info timestamp env)))
    \<longleftrightarrow> Platform info \<in> {''Instagram'', ''Facebook''}"
    by (simp add: handleAudioDownload_def command_runJob audioArgs_def platformArgs_def
        butlast_append)
qed (simp_all add: formatCode_def handleVideoDownload_def handleAudioDownload_def
       command_runJob videoArgs_def audioArgs_def)


theorem format_policy_table_witness:
  "''1080p'' \<notin> {''360p'', ''480p'', ''720p''} \<and> formatCode ''YouTube'' ''1080p'' = ''best'' \<and>
   ''TikTok'' \<in> {''Instagram'', ''Facebook'', ''TikTok''} \<and>
   formatCode ''TikTok'' ''medium'' = ''worst[ext=mp4]/worst'' \<and>
   ''1080p'' \<noteq> ''medium'' \<and> formatCode ''TikTok'' ''1080p'' = ''best[ext=mp4]/best'' \<and>
   ''--no-check-certificate''
      \<in> set (butlast (command (handleVideoDownload
            \<lparr>URL = ''https://instagram.com/p/1'', Platform = ''Instagram'', Title = ''T'',
             Thumbnail = [], Progress = 0, IsAudio = False\<rparr> ''1080p'' 1
            \<lparr>startErr = False, waitErr = False, globFiles = [''video_1.mp4''],
             statSize = Some 1, uploadErr = False\<rparr>)))"
  using format_policy_table
          [of "''1080p''" "''TikTok''"
              "\<lparr>URL = ''https://instagram.com/p/1'', Platform = ''Instagram'', Title = ''T'',
                Thumbnail = [], Progress = 0, IsAudio = False\<rparr>" 1
              "\<lparr>startErr = False, waitErr = False, globFiles = [''video_1.mp4''],
                statSize = Some 1, uploadErr = False\<rparr>"]
  by simp


section \<open>Properties of the float64 rounding\<close>

lemma ilog2_bounds:
  assumes "0 < a"
  shows "2 powi (ilog2 a) \<le> a \<and> a < 2 powi (ilog2 a + 1)"
proof -
  obtain p q where pq: "quotient_of a = (p, q)" by (cases "quotient_of a")
  have q: "0 < q" using pq by (rule quotient_of_denom_pos)
  have a: "a = of_int p / of_int q" using pq by (rule quotient_of_div)
  have p: "0 < p" using assms q a by (simp add: zero_less_divide_iff)
  define k where "k = bitlen p - bitlen q"
  have bp: "2 ^ nat (bitlen p - 1) \<le> p" "p < 2 ^ nat (bitlen p)"
    using bitlen_bounds [OF p] by auto
  have bq: "2 ^ nat (bitlen q - 1) \<le> q" "q < 2 ^ nat (bitlen q)"
    using bitlen_bounds [OF q] by auto
  have p1: "1 \<le> bitlen p" using p by (simp add: bitlen_alt_def)
  have q1: "1 \<le> bitlen q" using q by (simp add: bitlen_alt_def)
  have P: "(2::rat) powi (bitlen p - 1) \<le> of_int p" "(of_int p :: rat) < 2 powi (bitlen p)"
  proof -
    have "(of_int (2 ^ nat (bitlen p - 1)) :: rat) \<le> of_int p" using bp(1) by (simp only: of_int_le_iff)
    then show "(2::rat) powi (bitlen p - 1) \<le> of_int p" using p1 by (simp add: power_int_def)
    have "(of_int p :: rat) < of_int (2 ^ nat (bitlen p))" using bp(2) by (simp only: of_int_less_iff)
    then show "(of_int p :: rat) < 2 powi (bitlen p)" using p1 by (simp add: power_int_def)
  qed
  have Q: "(2::rat) powi (bitlen q - 1) \<le> of_int q" "(of_int q :: rat) < 2 powi (bitlen q)"
  proof -
    have "(of_int (2 ^ nat (bitlen q - 1)) :: rat) \<le> of_int q" using bq(1) by (simp only: of_int_le_iff)
    then show "(2::rat) powi (bitlen q - 1) \<le> of_int q" using q1 by (simp add: power_int_def)
    have "(of_int q :: rat) < of_int (2 ^ nat (bitlen q))" using bq(2) by (simp only: of_int_less_iff)
    then show "(of_int q :: rat) < 2 powi (bitlen q)" using q1 by (simp add: power_int_def)
  qed
  have qpos: "(0::rat) < of_int q" using q by simp
  have upper: "a < 2 powi (k + 1)"
  proof -
    have "of_int p < (2::rat) powi (bitlen p)" by (rule P(2))
    also have "\<dots> = 2 powi (k + 1) * 2 powi (bitlen q - 1)"
      by (simp add: k_def power_int_add [symmetric])
    also have "\<dots> \<le> 2 powi (k + 1) * of_int q"
      using Q(1) by (simp add: mult_left_mono)
    finally show ?thesis using qpos by (simp add: a pos_divide_less_eq)
  qed
  have lower: "2 powi (k - 1) < a"
  proof -
    have "(2::rat) powi (k - 1) * of_int q < 2 powi (k - 1) * 2 powi (bitlen q)"
      using Q(2) by (simp add: mult_strict_left_mono)
    also have "\<dots> = 2 powi (bitlen p - 1)"
      by (simp add: k_def power_int_add [symmetric])
    also have "\<dots> \<le> of_int p" by (rule P(1))
    finally show ?thesis using qpos by (simp add: a pos_less_divide_eq)
  qed
  have il: "ilog2 a = (if 2 powi k \<le> a then k else k - 1)"
    by (simp add: ilog2_def pq k_def)
  show ?thesis
  proof (cases "(2::rat) powi k \<le> a")
    case True
    then show ?thesis using upper il by simp
  next
    case False
    then show ?thesis using lower il by simp
  qed
qed

lemma ilog2_mono:
  assumes "0 < a" and "a \<le> b"
  shows "ilog2 a \<le> ilog2 b"
proof -
  have "(2::rat) powi (ilog2 a) \<le> a" using ilog2_bounds [OF assms(1)] by simp
  also have "a \<le> b" by fact
  also have "b < 2 powi (ilog2 b + 1)" using ilog2_bounds [of b] assms by simp
  finally have "(2::rat) powi (ilog2 a) < 2 powi (ilog2 b + 1)" .
  then have "\<not> ilog2 b + 1 \<le> ilog2 a"
    using power_int_increasing [of "ilog2 b + 1" "ilog2 a" "2::rat"] by auto
  then show ?thesis by simp
qed

lemma round_half_even_of_int: "round_half_even (of_int n) = n"
  by (simp add: round_half_even_def)

lemma round_half_even_range: "\<lfloor>q\<rfloor> \<le> round_half_even q \<and> round_half_even q \<le> \<lfloor>q\<rfloor> + 1"
  by (simp add: round_half_even_def Let_def)

lemma round_half_even_mono:
  assumes "x \<le> y"
  shows "round_half_even x \<le> round_half_even y"
proof (cases "\<lfloor>x\<rfloor> = \<lfloor>y\<rfloor>")
  case True
  have "x - of_int \<lfloor>y\<rfloor> \<le> y - of_int \<lfloor>y\<rfloor>" using assms by simp
  then show ?thesis
    by (auto simp: round_half_even_def Let_def True)
next
  case False
  have "\<lfloor>x\<rfloor> \<le> \<lfloor>y\<rfloor>" using assms by (rule floor_mono)
  then have "\<lfloor>x\<rfloor> + 1 \<le> \<lfloor>y\<rfloor>" using False by simp
  then show ?thesis
    using round_half_even_range [of x] round_half_even_range [of y] by linarith
qed

lemma round_half_even_ge: "of_int n \<le> q \<Longrightarrow> n \<le> round_half_even q"
  using round_half_even_mono [of "of_int n" q] by (simp add: round_half_even_of_int)

lemma round_half_even_le: "q \<le> of_int n \<Longrightarrow> round_half_even q \<le> n"
  using round_half_even_mono [of q "of_int n"] by (simp add: round_half_even_of_int)

text \<open>The rounding of a positive number stays in its binade.\<close>

lemma f64_round_pos:
  assumes "0 < x"
  shows "f64_round x = of_int (round_half_even (x / 2 powi (ilog2 x - 52))) * 2 powi (ilog2 x - 52)"
  using assms by (simp add: f64_round_def Let_def)

lemma f64_round_binade:
  assumes "0 < x"
  shows "2 powi (ilog2 x) \<le> f64_round x \<and> f64_round x \<le> 2 powi (ilog2 x + 1)"
proof -
  define e where "e = ilog2 x"
  define u :: rat where "u = 2 powi (e - 52)"
  have u: "0 < u" by (simp add: u_def)
  have b: "2 powi e \<le> x" "x < 2 powi (e + 1)"
    using ilog2_bounds [OF assms] by (simp_all add: e_def)
  have lo: "(2::rat) powi e = of_int (2 ^ 52) * u"
    by (simp add: u_def power_int_diff)
  have hi: "(2::rat) powi (e + 1) = of_int (2 ^ 53) * u"
    by (simp add: u_def power_int_diff power_int_add)
  have "of_int (2 ^ 52) \<le> x / u" using b(1) u by (simp add: lo pos_le_divide_eq)
  then have m_lo: "2 ^ 52 \<le> round_half_even (x / u)" by (rule round_half_even_ge)
  have "x / u \<le> of_int (2 ^ 53)" using b(2) u by (simp add: hi pos_divide_le_eq)
  then have m_hi: "round_half_even (x / u) \<le> 2 ^ 53" by (rule round_half_even_le)
  have r: "f64_round x = of_int (round_half_even (x / u)) * u"
    using f64_round_pos [OF assms] by (simp add: u_def e_def)
  have "of_int (2 ^ 52) * u \<le> of_int (round_half_even (x / u)) * u"
    using m_lo u by (intro mult_right_mono) (simp_all only: of_int_le_iff less_imp_le)
  moreover have "of_int (round_half_even (x / u)) * u \<le> of_int (2 ^ 53) * u"
    using m_hi u by (intro mult_right_mono) (simp_all only: of_int_le_iff less_imp_le)
  ultimately show ?thesis
    unfolding r e_def [symmetric] lo hi by simp
qed

lemma f64_round_pos_mono:
  assumes "0 < x" and "x \<le> y"
  shows "f64_round x \<le> f64_round y"
proof -
  have y: "0 < y" using assms by simp
  have le: "ilog2 x \<le> ilog2 y" using assms by (rule ilog2_mono)
  show ?thesis
  proof (cases "ilog2 x = ilog2 y")
    case True
    define u :: rat where "u = 2 powi (ilog2 y - 52)"
    have u: "0 < u" by (simp add: u_def)
    have "x / u \<le> y / u" using assms(2) u by (simp add: divide_right_mono)
    then have "round_half_even (x / u) \<le> round_half_even (y / u)"
      by (rule round_half_even_mono)
    then have "of_int (round_half_even (x / u)) * u \<le> of_int (round_half_even (y / u)) * u"
      using u by (intro mult_right_mono) (simp_all only: of_int_le_iff less_imp_le)
    then show ?thesis
      using f64_round_pos [OF assms(1)] f64_round_pos [OF y] by (simp add: True u_def)
  next
    case False
    then have "ilog2 x + 1 \<le> ilog2 y" using le by simp
    then have "(2::rat) powi (ilog2 x + 1) \<le> 2 powi (ilog2 y)"
      by (intro power_int_increasing) simp_all
    then show ?thesis
      using f64_round_binade [OF assms(1)] f64_round_binade [OF y] by linarith
  qed
qed

lemma f64_round_zero: "f64_round 0 = 0"
  by (simp add: f64_round_def)

lemma f64_round_minus: "f64_round (- x) = - f64_round x"
  by (simp add: f64_round_def Let_def)

lemma f64_round_pos_pos: "0 < x \<Longrightarrow> 0 < f64_round x"
proof -
  assume "0 < x"
  then have "2 powi (ilog2 x) \<le> f64_round x" using f64_round_binade by simp
  moreover have "(0::rat) < 2 powi (ilog2 x)" by simp
  ultimately show ?thesis by linarith
qed

lemma f64_round_mono:
  assumes "x \<le> y"
  shows "f64_round x \<le> f64_round y"
proof -
  consider "0 < x" | "x = 0" | "x < 0" by linarith
  then show ?thesis
  proof cases
    case 1
    then show ?thesis using assms by (rule f64_round_pos_mono)
  next
    case 2
    then show ?thesis
      using assms f64_round_pos_pos [of y] by (cases "y = 0") (auto simp: f64_round_zero)
  next
    case 3
    then have nx: "f64_round x < 0"
      using f64_round_pos_pos [of "- x"] by (simp add: f64_round_minus)
    consider "0 < y" | "y = 0" | "y < 0" by linarith
    then show ?thesis
    proof cases
      case 1
      then show ?thesis using nx f64_round_pos_pos [of y] by simp
    next
      case 2
      then show ?thesis using nx by (simp add: f64_round_zero)
    next
      case 3
      then have "f64_round (- y) \<le> f64_round (- x)"
        using assms by (intro f64_round_pos_mono) simp_all
      then show ?thesis by (simp add: f64_round_minus)
    qed
  qed
qed

lemma ilog2_less:
  assumes "0 < a" and "a < 2 powi k"
  shows "ilog2 a < k"
proof (rule ccontr)
  assume "\<not> ilog2 a < k"
  then have "(2::rat) powi k \<le> 2 powi (ilog2 a)"
    by (intro power_int_increasing) simp_all
  then show False using ilog2_bounds [OF assms(1)] assms(2) by linarith
qed

text \<open>
  A number with a significand of at most 53 bits is its own rounding; so the rounding
  returns such numbers only, and \<open>float64\<close> is exact on the integers up to \<open>2\<^sup>5\<^sup>3\<close>.
\<close>

lemma f64_round_exact_pos:
  assumes "0 < m" and "m \<le> 2 ^ 53"
  shows "f64_round (of_int m * 2 powi k) = of_int m * 2 powi k"
proof -
  define y :: rat where "y = of_int m * 2 powi k"
  have y: "0 < y" using assms(1) by (simp add: y_def)
  have "y \<le> of_int (2 ^ 53) * 2 powi k"
    unfolding y_def using assms(2) by (intro mult_right_mono) (simp_all only: of_int_le_iff zero_le_power_int zero_le_numeral)
  also have "\<dots> = 2 powi (k + 53)" by (simp add: power_int_add)
  finally have "y \<le> 2 powi (k + 53)" .
  then have "y < 2 powi (k + 54)"
    using power_int_strict_increasing [of "k + 53" "k + 54" "2::rat"] by simp
  then have e: "ilog2 y < k + 54" using y by (intro ilog2_less)
  define u :: rat where "u = 2 powi (ilog2 y - 52)"
  have u: "0 < u" by (simp add: u_def)
  have r: "f64_round y = of_int (round_half_even (y / u)) * u"
    using f64_round_pos [OF y] by (simp add: u_def)
  have "\<exists>n. y / u = of_int n"
  proof (cases "ilog2 y \<le> k + 52")
    case True
    define j where "j = nat (k + 52 - ilog2 y)"
    have "(2::rat) powi k = 2 powi (int j) * u"
      using True by (simp add: j_def u_def power_int_add [symmetric])
    then have "y / u = of_int m * 2 ^ j" using u by (simp add: y_def)
    then have "y / u = of_int (m * 2 ^ j)" by simp
    then show ?thesis by blast
  next
    case False
    then have e53: "ilog2 y = k + 53" using e by simp
    have "(2::rat) powi (k + 53) \<le> y" using ilog2_bounds [OF y] by (simp add: e53)
    moreover have "(2::rat) powi (k + 53) = of_int (2 ^ 53) * 2 powi k"
      by (simp add: power_int_add)
    ultimately have "of_int (2 ^ 53) * 2 powi k \<le> of_int m * (2::rat) powi k"
      by (simp add: y_def)
    then have "(of_int (2 ^ 53) :: rat) \<le> of_int m"
      by (simp only: mult_le_cancel_right zero_less_power_int zero_less_numeral)
    then have "2 ^ 53 \<le> m" by (simp only: of_int_le_iff)
    then have "m = 2 ^ 53" using assms(2) by simp
    moreover have "u = 2 * 2 powi k"
      by (simp add: u_def e53 power_int_add)
    ultimately have "y / u = of_int (2 ^ 52)" by (simp add: y_def)
    then show ?thesis by blast
  qed
  then obtain n where "y / u = of_int n" by blast
  then have "f64_round y = y / u * u" by (simp add: r round_half_even_of_int)
  then show ?thesis using u by (simp add: y_def)
qed

lemma f64_round_exact:
  assumes "\<bar>m\<bar> \<le> 2 ^ 53"
  shows "f64_round (of_int m * 2 powi k) = of_int m * 2 powi k"
proof -
  consider "0 < m" | "m = 0" | "m < 0" by linarith
  then show ?thesis
  proof cases
    case 1
    then show ?thesis using assms by (intro f64_round_exact_pos) simp_all
  next
    case 2
    then show ?thesis by (simp add: f64_round_zero)
  next
    case 3
    then have "f64_round (of_int (- m) * 2 powi k) = of_int (- m) * 2 powi k"
      using assms by (intro f64_round_exact_pos) simp_all
    then show ?thesis using f64_round_minus [of "of_int m * 2 powi k"] by simp
  qed
qed

lemma float64_exact: "\<bar>n\<bar> \<le> 2 ^ 53 \<Longrightarrow> float64 n = of_int n"
  using f64_round_exact [of n 0] by (simp add: float64_def)

lemma f64_round_idempotent: "f64_round (f64_round x) = f64_round x"
proof -
  have pos: "f64_round (f64_round x) = f64_round x" if x: "0 < x" for x
  proof -
    define m where "m = round_half_even (x / 2 powi (ilog2 x - 52))"
    have r: "f64_round x = of_int m * 2 powi (ilog2 x - 52)"
      using f64_round_pos [OF x] by (simp add: m_def)
    have b: "2 powi (ilog2 x) \<le> x" "x < 2 powi (ilog2 x + 1)" using ilog2_bounds [OF x] by simp_all
    have "x / 2 powi (ilog2 x - 52) \<le> of_int (2 ^ 53)"
      using b(2) by (simp add: power_int_diff power_int_add pos_divide_le_eq)
    then have "m \<le> 2 ^ 53" unfolding m_def by (rule round_half_even_le)
    moreover have "of_int 0 \<le> x / 2 powi (ilog2 x - 52)" using x by simp
    then have "0 \<le> m" unfolding m_def by (rule round_half_even_ge)
    ultimately have "\<bar>m\<bar> \<le> 2 ^ 53" by simp
    then show ?thesis unfolding r by (rule f64_round_exact)
  qed
  consider "0 < x" | "x = 0" | "x < 0" by linarith
  then show ?thesis
  proof cases
    case 1
    then show ?thesis by (rule pos)
  next
    case 2
    then show ?thesis by (simp add: f64_round_zero)
  next
    case 3
    then have "f64_round (f64_round (- x)) = f64_round (- x)" by (intro pos) simp
    then show ?thesis by (simp add: f64_round_minus)
  qed
qed

section \<open>The threshold of the progress tracker\<close>

text \<open>
  \<open>Duration.Seconds\<close> goes through \<open>float64\<close>, and still the comparison of the tracker
  with \<open>UpdateIntervalSec\<close> is exact: it holds when the duration is at least
  3 000 000 000 ns and fails below.
\<close>

lemma quot_rem_large:
  assumes "3000000000 \<le> d"
  shows "3 \<le> quot d 1000000000 \<and> 0 \<le> rem d 1000000000"
proof -
  have "quot d 1000000000 = d div 1000000000" using assms by (simp add: quot_def)
  moreover have "rem d 1000000000 = d mod 1000000000"
    using assms by (simp add: rem_def quot_def minus_mult_div_eq_mod)
  moreover have "3 \<le> d div 1000000000" using assms by linarith
  ultimately show ?thesis by simp
qed

lemma quot_rem_small:
  assumes "d < 3000000000"
  shows "quot d 1000000000 \<le> 2 \<and> rem d 1000000000 \<le> 999999999"
proof (cases "0 \<le> d")
  case True
  have "quot d 1000000000 = d div 1000000000"
    using True by (cases "d = 0") (simp_all add: quot_def)
  moreover have "rem d 1000000000 = d mod 1000000000"
    using True by (cases "d = 0") (simp_all add: rem_def quot_def minus_mult_div_eq_mod)
  moreover have "d div 1000000000 \<le> 2" using assms by linarith
  moreover have "d mod 1000000000 \<le> 999999999"
    using pos_mod_bound [of 1000000000 d] by linarith
  ultimately show ?thesis by simp
next
  case False
  then have q: "quot d 1000000000 = - ((- d) div 1000000000)" by (simp add: quot_def)
  have "0 \<le> (- d) div 1000000000" using False by (simp add: pos_imp_zdiv_nonneg_iff)
  moreover have "rem d 1000000000 = - ((- d) mod 1000000000)"
    unfolding rem_def q using minus_mult_div_eq_mod [of "- d" 1000000000] by linarith
  moreover have "0 \<le> (- d) mod 1000000000" by simp
  ultimately show ?thesis using q by linarith
qed

lemma f64_consts:
  "f64_round 3 = 3" "f64_round 2 = 2" "f64_round 999999999 = 999999999"
  "f64_round (2 + f64_round (999999999 / 1000000000)) < 3"
  by code_simp+

lemma Seconds_ge_interval: "UpdateIntervalSec \<le> Seconds d \<longleftrightarrow> 3000000000 \<le> d"
proof (cases "3000000000 \<le> d")
  case True
  define sec where "sec = quot d 1000000000"
  define nsec where "nsec = rem d 1000000000"
  have sn: "3 \<le> sec" "0 \<le> nsec" using quot_rem_large [OF True] by (simp_all add: sec_def nsec_def)
  have "f64_round 3 \<le> f64_round (of_int sec)"
    using sn(1) by (intro f64_round_mono) simp
  then have s: "3 \<le> float64 sec" by (simp add: float64_def f64_consts)
  have "f64_round 0 \<le> f64_round (of_int nsec)"
    using sn(2) by (intro f64_round_mono) simp
  then have "0 \<le> float64 nsec" by (simp add: float64_def f64_round_zero)
  then have "f64_round 0 \<le> f64_round (float64 nsec / 1000000000)"
    by (intro f64_round_mono) simp
  then have n: "0 \<le> f64_div (float64 nsec) 1000000000"
    by (simp add: f64_div_def f64_round_zero)
  have "f64_round 3 \<le> f64_round (float64 sec + f64_div (float64 nsec) 1000000000)"
    using s n by (intro f64_round_mono) simp
  then have "3 \<le> Seconds d"
    by (simp add: Seconds_def Let_def f64_add_def f64_consts sec_def nsec_def)
  then show ?thesis using True by (simp add: UpdateIntervalSec_def)
next
  case False
  define sec where "sec = quot d 1000000000"
  define nsec where "nsec = rem d 1000000000"
  have sn: "sec \<le> 2" "nsec \<le> 999999999"
    using quot_rem_small [of d] False by (simp_all add: sec_def nsec_def)
  have "f64_round (of_int sec) \<le> f64_round 2"
    using sn(1) by (intro f64_round_mono) simp
  then have s: "float64 sec \<le> 2" by (simp add: float64_def f64_consts)
  have "f64_round (of_int nsec) \<le> f64_round 999999999"
    using sn(2) by (intro f64_round_mono) simp
  then have "float64 nsec \<le> 999999999" by (simp add: float64_def f64_consts)
  then have "f64_round (float64 nsec / 1000000000) \<le> f64_round (999999999 / 1000000000)"
    by (intro f64_round_mono) simp
  then have n: "f64_div (float64 nsec) 1000000000 \<le> f64_round (999999999 / 1000000000)"
    by (simp add: f64_div_def)
  have "f64_round (float64 sec + f64_div (float64 nsec) 1000000000)
          \<le> f64_round (2 + f64_round (999999999 / 1000000000))"
    using s n by (intro f64_round_mono) simp
  then have "Seconds d < 3"
    using f64_consts(4)
    by (simp add: Seconds_def Let_def f64_add_def sec_def nsec_def)
  then show ?thesis using False by (simp add: UpdateIntervalSec_def)
qed

lemma trackLoop_step:
  "trackLoop lastT ((line, now, after) # rest) =
     (if 0 < parseProgress line \<and> 3000000000 \<le> now - lastT
      then (now, parseProgress line) # trackLoop after rest
      else trackLoop lastT rest)"
  by (simp add: Let_def Seconds_ge_interval)

declare trackLoop.simps(2) [simp del]

lemma trackLoop_emit:
  "0 < parseProgress line \<and> 3000000000 \<le> now - lastT \<Longrightarrow>
     trackLoop lastT ((line, now, after) # rest) = (now, parseProgress line) # trackLoop after rest"
  by (simp add: trackLoop_step)

lemma trackLoop_skip:
  "\<not> (0 < parseProgress line \<and> 3000000000 \<le> now - lastT) \<Longrightarrow>
     trackLoop lastT ((line, now, after) # rest) = trackLoop lastT rest"
  by (simp only: trackLoop_step if_False)

lemma trackLoop_from_lines:
  "(t, p) \<in> set (trackLoop lastT events) \<Longrightarrow>
     0 < p \<and> (\<exists>line after. (line, t, after) \<in> set events \<and> p = parseProgress line)"
proof (induction events arbitrary: lastT)
  case Nil
  then show ?case by simp
next
  case (Cons e events)
  obtain line now after where e: "e = (line, now, after)" by (cases e)
  show ?case
  proof (cases "0 < parseProgress line \<and> 3000000000 \<le> now - lastT")
    case True
    then have "(t, p) = (now, parseProgress line) \<or> (t, p) \<in> set (trackLoop after events)"
      using Cons.prems by (simp add: e trackLoop_emit [OF True])
    then show ?thesis
    proof
      assume "(t, p) = (now, parseProgress line)"
      then show ?thesis using True e by auto
    next
      assume "(t, p) \<in> set (trackLoop after events)"
      then show ?thesis using Cons.IH [of after] by auto
    qed
  next
    case False
    then have "(t, p) \<in> set (trackLoop lastT events)"
      using Cons.prems by (simp add: e trackLoop_skip [OF False])
    then show ?thesis using Cons.IH [of lastT] by auto
  qed
qed

lemma trackLoop_after_interval:
  "monotonic lastT events \<Longrightarrow> (t, p) \<in> set (trackLoop lastT events) \<Longrightarrow>
     lastT + 3000000000 \<le> t"
proof (induction events arbitrary: lastT)
  case Nil
  then show ?case by simp
next
  case (Cons e events)
  obtain line now after where e: "e = (line, now, after)" by (cases e)
  have mono: "lastT \<le> now" "now \<le> after" "monotonic after events"
    using Cons.prems(1) by (simp_all add: e)
  show ?case
  proof (cases "0 < parseProgress line \<and> 3000000000 \<le> now - lastT")
    case True
    then have "(t, p) = (now, parseProgress line) \<or> (t, p) \<in> set (trackLoop after events)"
      using Cons.prems(2) by (simp add: e trackLoop_emit [OF True])
    then show ?thesis
    proof
      assume "(t, p) = (now, parseProgress line)"
      then show ?thesis using True by simp
    next
      assume "(t, p) \<in> set (trackLoop after events)"
      then have "after + 3000000000 \<le> t" using Cons.IH [OF mono(3)] by simp
      then show ?thesis using mono by linarith
    qed
  next
    case False
    then have in_rest: "(t, p) \<in> set (trackLoop lastT events)"
      using Cons.prems(2) by (simp add: e trackLoop_skip [OF False])
    have "monotonic lastT events"
      using mono by (cases events) auto
    then show ?thesis using Cons.IH in_rest by simp
  qed
qed

lemma monotonic_weaken: "t \<le> t' \<Longrightarrow> monotonic t' events \<Longrightarrow> monotonic t events"
  by (cases events) auto

lemma trackLoop_gaps:
  "monotonic lastT events \<Longrightarrow>
     sorted_wrt (\<lambda>a b. fst a + 3000000000 \<le> fst b) (trackLoop lastT events)"
proof (induction events arbitrary: lastT)
  case Nil
  then show ?case by simp
next
  case (Cons e events)
  obtain line now after where e: "e = (line, now, after)" by (cases e)
  have mono: "lastT \<le> now" "now \<le> after" "monotonic after events"
    using Cons.prems(1) by (simp_all add: e)
  show ?case
  proof (cases "0 < parseProgress line \<and> 3000000000 \<le> now - lastT")
    case True
    have "\<forall>b \<in> set (trackLoop after events). now + 3000000000 \<le> fst b"
    proof
      fix b assume "b \<in> set (trackLoop after events)"
      then have "after + 3000000000 \<le> fst b"
        using trackLoop_after_interval [OF mono(3), of "fst b" "snd b"] by simp
      then show "now + 3000000000 \<le> fst b" using mono(2) by linarith
    qed
    then show ?thesis
      using Cons.IH [OF mono(3)] by (simp add: e trackLoop_emit [OF True])
  next
    case False
    have "monotonic lastT events"
      using mono monotonic_weaken [of lastT after events] by linarith
    then show ?thesis
      using Cons.IH by (simp add: e trackLoop_skip [OF False])
  qed
qed

lemma gaps_span:
  fixes xs :: "(int \<times> int) list"
  assumes "sorted_wrt (\<lambda>a b. fst a + g \<le> fst b) xs" and "xs \<noteq> []"
  shows "fst (hd xs) + g * (int (length xs) - 1) \<le> fst (last xs)"
  using assms
proof (induction xs)
  case Nil
  then show ?case by simp
next
  case (Cons x xs)
  show ?case
  proof (cases "xs = []")
    case True
    then show ?thesis by simp
  next
    case False
    then have "fst (hd xs) + g * (int (length xs) - 1) \<le> fst (last xs)"
      using Cons by simp
    moreover have "fst x + g \<le> fst (hd xs)" using Cons.prems(1) False by (cases xs) auto
    ultimately show ?thesis using False by (simp add: algebra_simps)
  qed
qed

lemma trackLoop_window:
  assumes "monotonic lastT events"
    and "\<forall>(line, now, after) \<in> set events. w \<le> now \<and> now \<le> w + 10000000000"
  shows "length (trackLoop lastT events) \<le> 4"
proof (cases "trackLoop lastT events = []")
  case True
  then show ?thesis by simp
next
  case False
  define out where "out = trackLoop lastT events"
  have ne: "out \<noteq> []" using False by (simp add: out_def)
  have span: "fst (hd out) + 3000000000 * (int (length out) - 1) \<le> fst (last out)"
    unfolding out_def using trackLoop_gaps [OF assms(1)] False by (rule gaps_span)
  have bounds: "w \<le> t \<and> t \<le> w + 10000000000" if tp: "(t, p) \<in> set out" for t p
  proof -
    obtain line after where "(line, t, after) \<in> set events"
      using trackLoop_from_lines [of t p lastT events] tp unfolding out_def by blast
    then show ?thesis using assms(2) by auto
  qed
  have "w \<le> fst (hd out)"
    using bounds [of "fst (hd out)" "snd (hd out)"] ne by simp
  moreover have "fst (last out) \<le> w + 10000000000"
    using bounds [of "fst (last out)" "snd (last out)"] ne by simp
  ultimately have "3000000000 * (int (length out) - 1) \<le> 10000000000"
    using span by linarith
  then have "\<not> 5 \<le> int (length out)" by (simp add: algebra_simps)
  then have "int (length out) \<le> 4" by simp
  then show ?thesis by (simp add: out_def)
qed

text \<open>
  Claim C3: with a monotonic clock, an edit is sent for a line only when the percentage
  parsed from that line is greater than 0, and each edit is sent at least 3 seconds after
  the edit before it; so when all lines are read within a window of 10 seconds, at most 4
  edits are sent, whatever the lines and however closely they arrive.
\<close>

theorem progress_updates_rate_limited:
  assumes "monotonic start events"
  shows "(\<forall>(t, p) \<in> set (trackProgress start events).
            0 < p \<and> (\<exists>line after. (line, t, after) \<in> set events \<and> p = parseProgress line)) \<and>
         sorted_wrt (\<lambda>a b. fst a + 3000000000 \<le> fst b) (trackProgress start events) \<and>
         ((\<forall>(line, now, after) \<in> set events. w \<le> now \<and> now \<le> w + 10000000000) \<longrightarrow>
            length (trackProgress start events) \<le> 4)"
proof (intro conjI impI)
  show "\<forall>(t, p) \<in> set (trackProgress start events).
            0 < p \<and> (\<exists>line after. (line, t, after) \<in> set events \<and> p = parseProgress line)"
    using trackLoop_from_lines unfolding trackProgress_def by blast
next
  show "sorted_wrt (\<lambda>a b. fst a + 3000000000 \<le> fst b) (trackProgress start events)"
    unfolding trackProgress_def using assms by (rule trackLoop_gaps)
next
  assume "\<forall>(line, now, after) \<in> set events. w \<le> now \<and> now \<le> w + 10000000000"
  then show "length (trackProgress start events) \<le> 4"
    unfolding trackProgress_def using assms trackLoop_window by blast
qed

theorem progress_updates_rate_limited_witness:
  "monotonic (- 3000000000)
     [(''5000000/10000000'', 0, 0), (''5000000/10000000'', 750000000, 750000000),
      (''5000000/10000000'', 1500000000, 1500000000),
      (''5000000/10000000'', 2250000000, 2250000000),
      (''5000000/10000000'', 3000000000, 3000000000),
      (''5000000/10000000'', 3750000000, 3750000000),
      (''5000000/10000000'', 4500000000, 4500000000),
      (''5000000/10000000'', 5250000000, 5250000000),
      (''5000000/10000000'', 6000000000, 6000000000),
      (''5000000/10000000'', 6750000000, 6750000000),
      (''5000000/10000000'', 7500000000, 7500000000),
      (''5000000/10000000'', 8250000000, 8250000000),
      (''5000000/10000000'', 9000000000, 9000000000),
      (''5000000/10000000'', 9750000000, 9750000000)] \<and>
   length (trackProgress (- 3000000000)
     [(''5000000/10000000'', 0, 0), (''5000000/10000000'', 750000000, 750000000),
      (''5000000/10000000'', 1500000000, 1500000000),
      (''5000000/10000000'', 2250000000, 2250000000),
      (''5000000/10000000'', 3000000000, 3000000000),
      (''5000000/10000000'', 3750000000, 3750000000),
      (''5000000/10000000'', 4500000000, 4500000000),
      (''5000000/10000000'', 5250000000, 5250000000),
      (''5000000/10000000'', 6000000000, 6000000000),
      (''5000000/10000000'', 6750000000, 6750000000),
      (''5000000/10000000'', 7500000000, 7500000000),
      (''5000000/10000000'', 8250000000, 8250000000),
      (''5000000/10000000'', 9000000000, 9000000000),
      (''5000000/10000000'', 9750000000, 9750000000)]) \<le> 4 \<and>
   trackProgress (- 3000000000)
     [(''5000000/10000000'', 0, 0), (''5000000/10000000'', 750000000, 750000000),
      (''5000000/10000000'', 1500000000, 1500000000),
      (''5000000/10000000'', 2250000000, 2250000000),
      (''5000000/10000000'', 3000000000, 3000000000),
      (''5000000/10000000'', 3750000000, 3750000000),
      (''5000000/10000000'', 4500000000, 4500000000),
      (''5000000/10000000'', 5250000000, 5250000000),
      (''5000000/10000000'', 6000000000, 6000000000),
      (''5000000/10000000'', 6750000000, 6750000000),
      (''5000000/10000000'', 7500000000, 7500000000),
      (''5000000/10000000'', 8250000000, 8250000000),
      (''5000000/10000000'', 9000000000, 9000000000),
      (''5000000/10000000'', 9750000000, 9750000000)]
     = [(0, 50), (3000000000, 50), (6000000000, 50), (9000000000, 50)]"
  (is "monotonic ?start ?evs \<and> _ \<and> _")
proof -
  have m: "monotonic ?start ?evs" by simp
  have w: "\<forall>(line, now, after) \<in> set ?evs. 0 \<le> now \<and> now \<le> 0 + 10000000000" by simp
  have p: "parseProgress ''5000000/10000000'' = 50" by code_simp
  have out: "trackProgress ?start ?evs
      = [(0, 50), (3000000000, 50), (6000000000, 50), (9000000000, 50)]"
    by (simp add: trackProgress_def trackLoop_step p)
  have "length (trackProgress ?start ?evs) \<le> 4"
    using progress_updates_rate_limited [OF m, of 0] w by blast
  then show ?thesis using m out by blast
qed

text \<open>
  Claim C10: with a monotonic clock, every edit, and so the first one, is sent at least
  3 seconds after the reading \<open>start\<close> the tracker takes before it scans the first line,
  even when lines with a positive percentage arrive at once.
\<close>

theorem first_update_after_interval:
  assumes "monotonic start events"
  shows "\<forall>(t, p) \<in> set (trackProgress start events). start + 3000000000 \<le> t"
  using trackLoop_after_interval [OF assms] unfolding trackProgress_def by blast

theorem first_update_after_interval_witness:
  "monotonic 1000
     [(''1/10'', 1000, 1000), (''5/10'', 1000000000, 1000000000),
      (''7/10'', 3000000999, 3000000999), (''9/10'', 3000001000, 3000002000),
      (''10/10'', 4000000000, 4000000000)] \<and>
   trackProgress 1000
     [(''1/10'', 1000, 1000), (''5/10'', 1000000000, 1000000000),
      (''7/10'', 3000000999, 3000000999), (''9/10'', 3000001000, 3000002000),
      (''10/10'', 4000000000, 4000000000)] \<noteq> [] \<and>
   1000 + 3000000000
     \<le> fst (hd (trackProgress 1000
           [(''1/10'', 1000, 1000), (''5/10'', 1000000000, 1000000000),
            (''7/10'', 3000000999, 3000000999), (''9/10'', 3000001000, 3000002000),
            (''10/10'', 4000000000, 4000000000)]))"
  (is "monotonic ?start ?evs \<and> _ \<and> _")
proof -
  have m: "monotonic ?start ?evs" by simp
  have p: "parseProgress ''1/10'' = 10" "parseProgress ''5/10'' = 50"
    "parseProgress ''7/10'' = 70" "parseProgress ''9/10'' = 90" "parseProgress ''10/10'' = 100"
    by code_simp+
  have out: "trackProgress ?start ?evs = [(3000001000, 90)]"
    by (simp add: trackProgress_def trackLoop_step p)
  then have ne: "trackProgress ?start ?evs \<noteq> []" by simp
  then have "hd (trackProgress ?start ?evs) \<in> set (trackProgress ?start ?evs)"
    by (rule hd_in_set)
  then have "?start + 3000000000 \<le> fst (hd (trackProgress ?start ?evs))"
    using first_update_after_interval [OF m] by (auto simp: case_prod_beta)
  then show ?thesis using m ne by blast
qed

section \<open>The percentage of a progress line\<close>

lemma parseProgress_examples:
  "parseProgress ''5000000/10000000'' = 50"
  "parseProgress ''abc/10'' = 0"
  "parseProgress ''10/0'' = 0"
  "parseProgress ''1000'' = 0"
  by code_simp+

subsection \<open>Splitting and parsing what the tool prints\<close>

text \<open>
  A line made of two integers in decimal with a slash between them splits into its two
  fields, and \<open>ParseInt\<close> reads every \<open>int64\<close> back from its decimal form.
\<close>

lemma Split_not_Nil: "Split s sep \<noteq> []"
  by (induction s) (auto split: list.splits)

lemma length_Split: "length (Split s sep) = Suc (count_list s sep)"
  by (induction s) (auto simp: Split_not_Nil split: list.splits)

lemma Split_no_sep: "sep \<notin> set s \<Longrightarrow> Split s sep = [s]"
  by (induction s) auto

lemma Split_at_sep: "sep \<notin> set a \<Longrightarrow> Split (a @ sep # b) sep = a # Split b sep"
  by (induction a) auto

lemma parseDigits_append:
  "parseDigits n (xs @ ys) =
     (case parseDigits n xs of Inl e \<Rightarrow> Inl e | Inr v \<Rightarrow> parseDigits v ys)"
  by (induction xs arbitrary: n) auto

lemma digit_bytes: "\<forall>k \<in> set [0..<10]. byte (''0123456789'' ! k) = 48 + int k"
  by code_simp

lemma digit_byte:
  assumes "0 \<le> n" and "n < 10"
  shows "byte (''0123456789'' ! nat n) = 48 + n"
proof -
  have "nat n \<in> set [0..<10]" using assms by simp
  then have "byte (''0123456789'' ! nat n) = 48 + int (nat n)"
    using digit_bytes by blast
  then show ?thesis using assms by simp
qed

lemma parseDigits_decimal:
  "0 \<le> n \<Longrightarrow> n \<le> 18446744073709551615 \<Longrightarrow> parseDigits 0 (decimal n) = Inr n"
proof (induction n rule: decimal.induct)
  case (1 n)
  show ?case
  proof (cases "n < 10")
    case True
    then show ?thesis
      using 1(2) by (subst decimal.simps) (simp add: digit_byte)
  next
    case False
    have d: "0 \<le> n mod 10" "n mod 10 < 10" by simp_all
    have q: "0 \<le> n div 10" "n div 10 \<le> 1844674407370955161" using 1(2,3) by linarith+
    have IH: "parseDigits 0 (decimal (n div 10)) = Inr (n div 10)"
      using 1(1) [OF False] q by simp
    have "parseDigits 0 (decimal n)
            = parseDigits (n div 10) [''0123456789'' ! nat (n mod 10)]"
      using False by (subst decimal.simps) (simp add: parseDigits_append IH)
    also have "\<dots> = Inr (n div 10 * 10 + n mod 10)"
      using q 1(3) by (simp add: digit_byte [OF d])
    finally show ?thesis by simp
  qed
qed

lemma decimal_digits:
  "0 \<le> n \<Longrightarrow> set (decimal n) \<subseteq> set ''0123456789''"
proof (induction n rule: decimal.induct)
  case (1 n)
  show ?case
  proof (cases "n < 10")
    case True
    have "nat n < length ''0123456789''" using True by simp
    then have "''0123456789'' ! nat n \<in> set ''0123456789''" by (rule nth_mem)
    then show ?thesis using True by (subst decimal.simps) simp
  next
    case False
    have "nat (n mod 10) < length ''0123456789''" by simp
    then have "''0123456789'' ! nat (n mod 10) \<in> set ''0123456789''" by (rule nth_mem)
    moreover have "set (decimal (n div 10)) \<subseteq> set ''0123456789''"
      using 1(1) [OF False] 1(2) by simp
    ultimately show ?thesis using False by (subst decimal.simps) simp
  qed
qed

lemma ParseInt_formatInt:
  assumes "- 9223372036854775808 \<le> v" and "v < 9223372036854775808"
  shows "ParseInt (formatInt v) = Inr v"
proof (cases "v < 0")
  case True
  have "parseDigits 0 (decimal (- v)) = Inr (- v)"
    using True assms by (intro parseDigits_decimal) simp_all
  then show ?thesis
    using True assms decimal_not_Nil [of "- v"]
    by (simp add: ParseInt_def formatInt_def ParseUint_def)
next
  case False
  have p: "parseDigits 0 (decimal v) = Inr v"
    using False assms by (intro parseDigits_decimal) simp_all
  obtain c cs where cs: "decimal v = c # cs"
    using decimal_not_Nil [of v] by (cases "decimal v") auto
  then have "c \<in> set ''0123456789''" using decimal_digits [of v] False by auto
  then have "c \<noteq> CHR ''+''" "c \<noteq> CHR ''-''" by auto
  then show ?thesis
    using False assms p cs by (simp add: ParseInt_def formatInt_def ParseUint_def)
qed

lemma formatInt_no_slash: "CHR ''/'' \<notin> set (formatInt v)"
proof -
  have "CHR ''/'' \<notin> set (decimal n)" if "0 \<le> n" for n
    using decimal_digits [OF that] by auto
  then show ?thesis by (simp add: formatInt_def)
qed

lemma parseProgress_no_signal:
  "length (Split line CHR ''/'') \<noteq> 2 \<or>
   (\<exists>e. ParseInt (Split line CHR ''/'' ! 0) = Inl e) \<or>
   (\<exists>e. ParseInt (Split line CHR ''/'' ! 1) = Inl e) \<or>
   ParseInt (Split line CHR ''/'' ! 1) = Inr 0 \<Longrightarrow>
   parseProgress line = 0"
  by (auto simp: parseProgress_def Let_def split: sum.splits)

subsection \<open>How far the percentage is from the floor\<close>

text \<open>
  Each rounding changes a number by at most the fraction \<open>2\<^sup>-\<^sup>5\<^sup>3\<close> of it. For a line
  with \<open>0 \<le> downloaded \<le> total\<close> the four roundings of \<open>parseProgress\<close> keep the product
  within 1 of \<open>100 * downloaded / total\<close>, and the percentage within 1 of its floor.
\<close>

lemma round_half_even_error: "\<bar>of_int (round_half_even q) - q\<bar> \<le> 1 / 2"
proof -
  define r where "r = q - of_int \<lfloor>q\<rfloor>"
  have r: "0 \<le> r" "r < 1" unfolding r_def by linarith+
  have q: "q = of_int \<lfloor>q\<rfloor> + r" by (simp add: r_def)
  consider "r < 1 / 2" | "1 / 2 < r" | "r = 1 / 2" by linarith
  then show ?thesis
  proof cases
    case 1
    then have "round_half_even q = \<lfloor>q\<rfloor>"
      by (simp add: round_half_even_def Let_def r_def)
    then show ?thesis using 1 r q by (auto simp: abs_if)
  next
    case 2
    then have "round_half_even q = \<lfloor>q\<rfloor> + 1"
      by (simp add: round_half_even_def Let_def r_def)
    then show ?thesis using 2 r q by (auto simp: abs_if)
  next
    case 3
    then have "round_half_even q = \<lfloor>q\<rfloor> \<or> round_half_even q = \<lfloor>q\<rfloor> + 1"
      by (simp add: round_half_even_def Let_def r_def)
    then show ?thesis using 3 q by (auto simp: abs_if)
  qed
qed

lemma f64_round_error_pos:
  assumes "0 < x"
  shows "\<bar>f64_round x - x\<bar> \<le> x / 2 ^ 53"
proof -
  define u :: rat where "u = 2 powi (ilog2 x - 52)"
  have u: "0 < u" by (simp add: u_def)
  have r: "f64_round x = of_int (round_half_even (x / u)) * u"
    using f64_round_pos [OF assms] by (simp add: u_def)
  have "f64_round x - x = (of_int (round_half_even (x / u)) - x / u) * u"
    using u by (simp add: r algebra_simps)
  then have "\<bar>f64_round x - x\<bar> = \<bar>of_int (round_half_even (x / u)) - x / u\<bar> * u"
    using u by (simp add: abs_mult)
  also have "\<dots> \<le> 1 / 2 * u"
    using round_half_even_error [of "x / u"] u by (intro mult_right_mono) simp_all
  also have "1 / 2 * u = 2 powi (ilog2 x) / 2 ^ 53"
    by (simp add: u_def power_int_diff)
  also have "\<dots> \<le> x / 2 ^ 53"
    using ilog2_bounds [OF assms] by (simp add: divide_right_mono)
  finally show ?thesis .
qed

lemma f64_round_error: "\<bar>f64_round x - x\<bar> \<le> \<bar>x\<bar> / 2 ^ 53"
proof -
  consider "0 < x" | "x = 0" | "x < 0" by linarith
  then show ?thesis
  proof cases
    case 1
    then show ?thesis using f64_round_error_pos [of x] by simp
  next
    case 2
    then show ?thesis by (simp add: f64_round_zero)
  next
    case 3
    then have "\<bar>f64_round (- x) - (- x)\<bar> \<le> (- x) / 2 ^ 53"
      by (intro f64_round_error_pos) simp
    then show ?thesis using 3 by (simp add: f64_round_minus abs_if split: if_splits)
  qed
qed

lemma f64_round_nonneg: "0 \<le> x \<Longrightarrow> 0 \<le> f64_round x"
  using f64_round_mono [of 0 x] by (simp add: f64_round_zero)

text \<open>Bounds of a rounded non-negative number, with \<open>\<epsilon> = 2\<^sup>-\<^sup>5\<^sup>3\<close>.\<close>

lemma f64_round_between:
  assumes "0 \<le> x"
  shows "x * (1 - 1 / 2 ^ 53) \<le> f64_round x \<and> f64_round x \<le> x * (1 + 1 / 2 ^ 53)"
proof -
  define e where "e = x / 2 ^ 53"
  have "\<bar>f64_round x - x\<bar> \<le> e" using f64_round_error [of x] assms by (simp add: e_def)
  then have "f64_round x - x \<le> e" "x - f64_round x \<le> e"
    by (simp_all only: abs_le_iff minus_diff_eq)
  moreover have "x * (1 - 1 / 2 ^ 53) = x - e" "x * (1 + 1 / 2 ^ 53) = x + e"
    by (simp_all add: algebra_simps e_def)
  ultimately show ?thesis by (simp only:) linarith
qed

lemma eps_consts:
  "100 * ((1 + 1 / 2 ^ 53) * (1 + 1 / 2 ^ 53) * (1 + 1 / 2 ^ 53) / (1 - 1 / 2 ^ 53) - 1) < (1::rat)"
  "100 * (1 - (1 - 1 / 2 ^ 53) * (1 - 1 / 2 ^ 53) * (1 - 1 / 2 ^ 53) / (1 + 1 / 2 ^ 53)) < (1::rat)"
  "(0::rat) < 1 - 1 / 2 ^ 53"
  by simp_all

lemma percent_error:
  assumes "0 \<le> d" and "d \<le> t" and "0 < t"
  shows "100 * of_int d / of_int t - 1 < f64_mul (f64_div (float64 d) (float64 t)) 100 \<and>
         f64_mul (f64_div (float64 d) (float64 t)) 100 < 100 * of_int d / of_int t + 1 \<and>
         0 \<le> f64_mul (f64_div (float64 d) (float64 t)) 100"
proof -
  define a :: rat where "a = 1 - 1 / 2 ^ 53"
  define b :: rat where "b = 1 + 1 / 2 ^ 53"
  define dd :: rat where "dd = of_int d"
  define tt :: rat where "tt = of_int t"
  define D where "D = float64 d"
  define T where "T = float64 t"
  define q where "q = f64_div D T"
  define p where "p = f64_mul q 100"
  have a: "0 < a" "a \<le> 1" and b: "1 \<le> b" "0 < b" by (simp_all add: a_def b_def)
  have hi: "100 * (b * b * b / a - 1) < 1" and lo: "100 * (1 - a * a * a / b) < 1"
    using eps_consts by (simp_all add: a_def b_def)
  have dd: "0 \<le> dd" "dd \<le> tt" and tt: "0 < tt" using assms by (simp_all add: dd_def tt_def)
  have D: "dd * a \<le> D" "D \<le> dd * b"
    using f64_round_between [of dd] dd by (simp_all add: D_def float64_def dd_def a_def b_def)
  have T: "tt * a \<le> T" "T \<le> tt * b"
    using f64_round_between [of tt] tt by (simp_all add: T_def float64_def tt_def a_def b_def)
  have Dnn: "0 \<le> D" using D(1) dd a by (meson mult_nonneg_nonneg less_imp_le order_trans)
  have tta: "0 < tt * a" using tt a by simp
  have Tpos: "0 < T" using T(1) tta by linarith
  have ddb: "0 \<le> dd * b" using dd b by simp
  have r_hi: "D / T \<le> (dd * b) / (tt * a)"
    using ddb D(2) tta T(1) by (rule frac_le)
  have dda: "0 \<le> dd * a" using dd a by simp
  have r_lo: "(dd * a) / (tt * b) \<le> D / T"
    using Dnn D(1) Tpos T(2) by (rule frac_le)
  have rnn: "0 \<le> D / T" using Dnn Tpos by simp
  have q: "D / T * a \<le> q" "q \<le> D / T * b"
    using f64_round_between [OF rnn] by (simp_all add: q_def f64_div_def a_def b_def)
  have qnn: "0 \<le> q" unfolding q_def f64_div_def using rnn by (rule f64_round_nonneg)
  have q100: "0 \<le> q * 100" using qnn by simp
  have p: "q * 100 * a \<le> p" "p \<le> q * 100 * b"
    using f64_round_between [OF q100] by (simp_all add: p_def f64_mul_def a_def b_def)
  have pnn: "0 \<le> p" unfolding p_def f64_mul_def using q100 by (rule f64_round_nonneg)
  define y where "y = dd / tt"
  have y: "0 \<le> y" "y \<le> 1" using dd tt by (simp_all add: y_def)
  have up1: "q \<le> y * (b * b / a)"
  proof -
    have "q \<le> D / T * b" by (rule q(2))
    also have "\<dots> \<le> (dd * b) / (tt * a) * b" using r_hi b by (intro mult_right_mono) simp_all
    also have "\<dots> = y * (b * b / a)" by (simp add: y_def)
    finally show ?thesis .
  qed
  have up: "p \<le> 100 * y * (b * b * b / a)"
  proof -
    have "p \<le> q * 100 * b" by (rule p(2))
    also have "\<dots> \<le> y * (b * b / a) * 100 * b" using up1 b by (intro mult_right_mono) simp_all
    also have "\<dots> = 100 * y * (b * b * b / a)" by simp
    finally show ?thesis .
  qed
  have dn1: "y * (a * a / b) \<le> q"
  proof -
    have "y * (a * a / b) = (dd * a) / (tt * b) * a" by (simp add: y_def)
    also have "\<dots> \<le> D / T * a" using r_lo a by (intro mult_right_mono) simp_all
    also have "\<dots> \<le> q" by (rule q(1))
    finally show ?thesis .
  qed
  have dn: "100 * y * (a * a * a / b) \<le> p"
  proof -
    have "100 * y * (a * a * a / b) = y * (a * a / b) * 100 * a" by simp
    also have "\<dots> \<le> q * 100 * a" using dn1 a by (intro mult_right_mono) simp_all
    also have "\<dots> \<le> p" by (rule p(1))
    finally show ?thesis .
  qed
  have x: "100 * of_int d / of_int t = 100 * y" by (simp add: y_def dd_def tt_def)
  have khi: "0 \<le> b * b * b / a - 1"
  proof -
    have "1 \<le> b * b * b" using b by (metis mult_mono' mult.left_neutral order_trans zero_le_one)
    then have "a \<le> b * b * b" using a by linarith
    then have "1 \<le> b * b * b / a" using a by (simp add: pos_le_divide_eq)
    then show ?thesis by simp
  qed
  have klo: "0 \<le> 1 - a * a * a / b"
  proof -
    have "a * a \<le> 1" using a by (metis less_imp_le mult_mono' mult.left_neutral zero_le_one)
    then have "a * a * a \<le> 1" using a
      by (metis less_imp_le mult_le_one mult_nonneg_nonneg)
    then have "a * a * a \<le> b" using b by linarith
    then have "a * a * a / b \<le> 1" using b by (simp add: pos_divide_le_eq)
    then show ?thesis by simp
  qed
  have "p - 100 * y \<le> 100 * y * (b * b * b / a - 1)" using up by (simp add: algebra_simps)
  also have "100 * y * (b * b * b / a - 1) = y * (100 * (b * b * b / a - 1))" by simp
  also have "\<dots> \<le> 1 * (100 * (b * b * b / a - 1))"
    using y khi by (intro mult_right_mono) simp_all
  finally have upper: "p < 100 * y + 1" using hi by linarith
  have "100 * y - p \<le> 100 * y * (1 - a * a * a / b)" using dn by (simp add: algebra_simps)
  also have "100 * y * (1 - a * a * a / b) = y * (100 * (1 - a * a * a / b))" by simp
  also have "\<dots> \<le> 1 * (100 * (1 - a * a * a / b))"
    using y klo by (intro mult_right_mono) simp_all
  finally have lower: "100 * y - 1 < p" using lo by linarith
  show ?thesis
    using upper lower pnn unfolding x by (simp add: p_def q_def D_def T_def)
qed

lemma parseProgress_within_one:
  assumes "Split line CHR ''/'' = [a, b]" and "ParseInt a = Inr d" and "ParseInt b = Inr t"
    and "0 \<le> d" and "d \<le> t" and "0 < t"
  shows "\<bar>parseProgress line - (100 * d) div t\<bar> \<le> 1"
proof -
  define x :: rat where "x = 100 * of_int d / of_int t"
  define p where "p = f64_mul (f64_div (float64 d) (float64 t)) 100"
  have p: "x - 1 < p" "p < x + 1" "0 \<le> p"
    using percent_error [OF assms(4-6)] by (simp_all add: x_def p_def)
  have "x \<le> 100" using assms(4-6) by (simp add: x_def pos_divide_le_eq)
  then have "p < 101" using p(2) by linarith
  then have "\<lfloor>p\<rfloor> < 101" by (simp add: floor_less_iff)
  moreover have "0 \<le> \<lfloor>p\<rfloor>" using p(3) by simp
  ultimately have conv: "int_of_float64 p = \<lfloor>p\<rfloor>"
    using p(3) by (simp add: int_of_float64_def truncate_def)
  have fx: "\<lfloor>x\<rfloor> = (100 * d) div t"
    unfolding x_def using floor_divide_of_int_eq [of "100 * d" t, where ?'a = rat] by simp
  have "\<lfloor>p\<rfloor> \<le> \<lfloor>x + 1\<rfloor>" using p(2) by (intro floor_mono) simp
  moreover have "\<lfloor>x - 1\<rfloor> \<le> \<lfloor>p\<rfloor>" using p(1) by (intro floor_mono) simp
  ultimately have "\<bar>\<lfloor>p\<rfloor> - \<lfloor>x\<rfloor>\<bar> \<le> 1" by simp
  moreover have "parseProgress line = int_of_float64 p"
    using assms(1-3,6) by (simp add: parseProgress_def p_def)
  ultimately show ?thesis by (simp add: conv fx)
qed

lemma parseProgress_printed_line:
  assumes "0 \<le> d" and "d \<le> t" and "0 < t" and "t < 9223372036854775808"
  shows "\<bar>parseProgress (formatInt d @ ''/'' @ formatInt t) - (100 * d) div t\<bar> \<le> 1"
proof -
  have "Split (formatInt d @ CHR ''/'' # formatInt t) CHR ''/''
          = formatInt d # Split (formatInt t) CHR ''/''"
    using formatInt_no_slash by (rule Split_at_sep)
  then have split: "Split (formatInt d @ ''/'' @ formatInt t) CHR ''/'' = [formatInt d, formatInt t]"
    using Split_no_sep [OF formatInt_no_slash, of t] by simp
  have pd: "ParseInt (formatInt d) = Inr d" using assms by (intro ParseInt_formatInt) simp_all
  have pt: "ParseInt (formatInt t) = Inr t" using assms by (intro ParseInt_formatInt) simp_all
  show ?thesis
    using split pd pt assms(1-3) by (rule parseProgress_within_one)
qed

text \<open>
  Claim C2 asks for \<open>floor(100 * downloaded / total)\<close> on every line of two integers with
  a total that is not zero. The code computes \<open>int((float64(downloaded) /
  float64(total)) * 100)\<close>: the quotient 29/100 is rounded to a \<open>float64\<close> below 0.29, its
  product with 100 is rounded to the \<open>float64\<close> just below 29, and the conversion discards
  the fraction. The line \<open>29/100\<close> gives 28, not 29.
\<close>

theorem parseProgress_rounds_below_floor:
  "parseProgress ''29/100'' = 28"
  by code_simp

end
